theory Spec2Isabelle
  imports Main "HOL-Library.Sublist" "HOL-Library.Char_ord" "HOL-Library.List_Lexorder"
begin

section \<open>Conversion of a finite state automaton into a regular expression\<close>

text \<open>
  A shallow embedding of \<^verbatim>\<open>reg_exp_converter.py\<close>. Python strings are \<open>string\<close>,
  Python lists are lists, every exception is a value of \<open>error\<close>, and a method that may
  raise returns \<open>error + 'a\<close> with the exception on the left.
\<close>

subsection \<open>Exceptions\<close>

text \<open>
  The seven subclasses of \<^verbatim>\<open>ConverterException\<close>, in the order of their codes E1 to E7,
  and the three Python exceptions the program does not catch: \<^verbatim>\<open>ValueError\<close>, raised by
  unpacking \<^verbatim>\<open>transition.split('>')\<close> into three names when the token has not exactly three
  fields, \<^verbatim>\<open>IndexError\<close>, raised by indexing a list out of range, and
  \<^verbatim>\<open>RecursionError\<close>, raised by a call that would nest deeper than the interpreter's
  recursion limit allows.
\<close>

datatype error =
    InputIsMalformedException
  | InitStateIsNotDefinedException
  | NoAcceptingStatesException
  | InvalidStateException string
  | InvalidTransitionException string
  | DisjointStatesException
  | InvalidFSATypeException
  | ValueError
  | IndexError
  | RecursionError

fun is_ConverterException :: "error \<Rightarrow> bool" where
  "is_ConverterException ValueError = False"
| "is_ConverterException IndexError = False"
| "is_ConverterException RecursionError = False"
| "is_ConverterException e = True"

definition quote :: string where
  "quote = [CHR 0x27]"

fun message :: "error \<Rightarrow> string" where
  "message InputIsMalformedException = ''E1: Input file is malformed''"
| "message InitStateIsNotDefinedException = ''E2: Initial state is not defined''"
| "message NoAcceptingStatesException = ''E3: Set of accepting states is empty''"
| "message (InvalidStateException state) =
     ''E4: A state '' @ quote @ state @ quote @ '' is not in the set of states''"
| "message (InvalidTransitionException transition) =
     ''E5: A transition '' @ quote @ transition @ quote @ '' is not represented in the alphabet''"
| "message DisjointStatesException = ''E6: Some states are disjoint''"
| "message InvalidFSATypeException = ''E7: FSA is non-deterministic''"
| "message ValueError = ''ValueError''"
| "message IndexError = ''IndexError''"
| "message RecursionError = ''RecursionError''"

subsection \<open>Python string operations\<close>

text \<open>\<^verbatim>\<open>s.split(sep)\<close> with a one-character separator: one more piece than separators.\<close>

fun split :: "char \<Rightarrow> string \<Rightarrow> string list" where
  "split sep [] = [[]]"
| "split sep (c # cs) =
     (if c = sep then [] # split sep cs
      else (c # hd (split sep cs)) # tl (split sep cs))"

text \<open>\<^verbatim>\<open>pat in s\<close>: \<open>pat\<close> occurs in \<open>s\<close> as a contiguous substring.\<close>

fun contains :: "string \<Rightarrow> string \<Rightarrow> bool" where
  "contains [] pat = (pat = [])"
| "contains (c # cs) pat = (prefix pat (c # cs) \<or> contains cs pat)"

text \<open>
  \<^verbatim>\<open>re.findall(r'\[([^\]]+)\]', line)\<close>: the contents of the bracket groups of a line,
  from left to right. A group starts at an opening bracket, runs over one or more characters
  other than the closing bracket and ends at a closing bracket; where no group starts at a
  position the scan goes on one character further.
\<close>

function findall :: "string \<Rightarrow> string list" where
  "findall [] = []"
| "findall (c # cs) =
     (let body = takeWhile (\<lambda>x. x \<noteq> CHR '']'') cs;
          rest = dropWhile (\<lambda>x. x \<noteq> CHR '']'') cs
      in if c = CHR ''['' \<and> body \<noteq> [] \<and> rest \<noteq> [] then body # findall (tl rest)
         else findall cs)"
  by pat_completeness auto
termination
proof (relation "measure length")
  fix c :: char and cs body rest :: string
  assume "rest = dropWhile (\<lambda>x. x \<noteq> CHR '']'') cs"
  then have "length rest \<le> length cs"
    by (simp add: length_dropWhile_le)
  then show "(tl rest, c # cs) \<in> measure length"
    by simp
qed simp_all

subsection \<open>The automaton and its extraction from the input file\<close>

text \<open>The fields of \<^verbatim>\<open>RegularExpressionConverter\<close> that \<^verbatim>\<open>__extract\<close> fills.\<close>

record automaton =
  automaton_type :: string
  states :: "string list"
  alphabet :: "string list"
  initial_state :: string
  accepting_states :: "string list"
  transitions :: "string list"

definition commands :: "string list" where
  "commands = [''type'', ''states'', ''alphabet'', ''initial'', ''accepting'', ''transitions'']"

definition epsilon :: string where
  "epsilon = ''eps''"

definition empty_set :: string where
  "empty_set = ''{}''"

text \<open>
  Inside the \<^verbatim>\<open>try\<close> block of \<^verbatim>\<open>__extract\<close> every exception, whatever its class, is
  replaced by \<^verbatim>\<open>InputIsMalformedException\<close>; so the steps of the block are modelled with
  \<open>option\<close>, and \<open>None\<close> stands for any exception raised inside the block.

  The loop over the lines of the file: line \<open>i\<close> must contain \<open>commands[i]\<close> (a seventh
  line makes \<open>commands[i]\<close> fail), and its bracket groups are appended to
  \<^verbatim>\<open>parsed_vals\<close>.
\<close>

fun parse_lines :: "nat \<Rightarrow> string list \<Rightarrow> string list list \<Rightarrow> string list list option" where
  "parse_lines i [] parsed_vals = Some parsed_vals"
| "parse_lines i (line # file) parsed_vals =
     (if i < length commands \<and> contains line (commands ! i)
      then parse_lines (Suc i) file (parsed_vals @ [findall line])
      else None)"

text \<open>\<^verbatim>\<open>parsed_vals[k][0]\<close>, which fails when either index is out of range.\<close>

definition first_value :: "string list list \<Rightarrow> nat \<Rightarrow> string option" where
  "first_value parsed_vals k =
     (if k < length parsed_vals
      then (case parsed_vals ! k of [] \<Rightarrow> None | v # _ \<Rightarrow> Some v)
      else None)"

text \<open>
  \<^verbatim>\<open>list(set(xs))\<close> followed by \<^verbatim>\<open>sort()\<close>: the distinct elements in increasing order.
  Python compares strings by code point, lexicographically.
\<close>

definition sorted_set :: "string list \<Rightarrow> string list" where
  "sorted_set xs = sort (remdups xs)"

text \<open>\<^verbatim>\<open>__extract\<close>, on the lines of the input file.\<close>

definition extract_file :: "string list \<Rightarrow> error + automaton" where
  "extract_file file =
     (case parse_lines 0 file [] of
        None \<Rightarrow> Inl InputIsMalformedException
      | Some parsed_vals \<Rightarrow>
         (case (first_value parsed_vals 0, first_value parsed_vals 1, first_value parsed_vals 2,
                first_value parsed_vals 3, first_value parsed_vals 4, first_value parsed_vals 5) of
            (Some t, Some s, Some al, Some i, Some ac, Some tr) \<Rightarrow>
              Inr \<lparr> automaton_type = t,
                    states = sorted_set (split CHR '','' s),
                    alphabet = split CHR '','' al,
                    initial_state = i,
                    accepting_states = split CHR '','' ac,
                    transitions = split CHR '','' tr \<rparr>
          | _ \<Rightarrow> Inl InputIsMalformedException))"

subsection \<open>Sequencing of statements that may raise\<close>

definition and_then :: "error + 'a \<Rightarrow> ('a \<Rightarrow> error + 'b) \<Rightarrow> error + 'b" where
  "and_then m f = (case m of Inl e \<Rightarrow> Inl e | Inr x \<Rightarrow> f x)"

text \<open>A \<^verbatim>\<open>for\<close> loop whose body updates the variables \<open>s\<close> or raises.\<close>

fun for_each :: "'x list \<Rightarrow> ('x \<Rightarrow> 's \<Rightarrow> error + 's) \<Rightarrow> 's \<Rightarrow> error + 's" where
  "for_each [] body s = Inr s"
| "for_each (x # xs) body s = and_then (body x s) (for_each xs body)"

text \<open>
  \<^verbatim>\<open>s_state, s_transition, d_state = transition.split('>')\<close>: the unpacking raises
  \<^verbatim>\<open>ValueError\<close> unless the token has exactly three fields.
\<close>

definition unpack :: "string \<Rightarrow> error + (string \<times> string \<times> string)" where
  "unpack transition =
     (case split CHR ''>'' transition of
        [s_state, s_transition, d_state] \<Rightarrow> Inr (s_state, s_transition, d_state)
      | _ \<Rightarrow> Inl ValueError)"

subsection \<open>The reachability graph\<close>

text \<open>
  \<^verbatim>\<open>Graph.addNode\<close> creates one \<^verbatim>\<open>Node\<close> object for each label and returns the existing
  object when the label is known, so inside a graph a node is identified by its label. The
  graph is the store of its nodes: a reference to a node is the node's label, the list
  \<^verbatim>\<open>adjacent_nodes\<close> of a node holds labels, and a method that mutates a node returns the
  updated graph.
\<close>

record node =
  label :: string
  adjacent_nodes :: "string list"
  is_visited :: bool

record graph =
  number_of_states :: nat
  node_list :: "node list"

definition Node :: "string \<Rightarrow> node" where
  "Node l = \<lparr> label = l, adjacent_nodes = [], is_visited = False \<rparr>"

definition Graph :: "nat \<Rightarrow> graph" where
  "Graph n = \<lparr> number_of_states = n, node_list = [] \<rparr>"

definition getAdjacentNodes :: "graph \<Rightarrow> string \<Rightarrow> string list" where
  "getAdjacentNodes g l =
     (case find (\<lambda>n. label n = l) (node_list g) of
        Some n \<Rightarrow> adjacent_nodes n
      | None \<Rightarrow> [])"

definition isVisited :: "graph \<Rightarrow> string \<Rightarrow> bool" where
  "isVisited g l =
     (case find (\<lambda>n. label n = l) (node_list g) of
        Some n \<Rightarrow> is_visited n
      | None \<Rightarrow> False)"

definition setVisited :: "graph \<Rightarrow> string \<Rightarrow> graph" where
  "setVisited g l =
     g\<lparr> node_list := map (\<lambda>n. if label n = l then n\<lparr> is_visited := True \<rparr> else n) (node_list g) \<rparr>"

text \<open>\<^verbatim>\<open>Graph.addNode\<close>; the node returned is the one labelled \<open>l\<close>.\<close>

definition addNode :: "graph \<Rightarrow> string \<Rightarrow> graph" where
  "addNode g l =
     (if l \<notin> set (map label (node_list g)) then g\<lparr> node_list := node_list g @ [Node l] \<rparr>
      else g)"

text \<open>\<^verbatim>\<open>Graph.addEdge\<close>, which calls \<^verbatim>\<open>Node.addEdge\<close> on the source node.\<close>

definition addEdge :: "graph \<Rightarrow> string \<Rightarrow> string \<Rightarrow> graph" where
  "addEdge g s d =
     g\<lparr> node_list :=
          map (\<lambda>n. if label n = s \<and> d \<notin> set (adjacent_nodes n)
                    then n\<lparr> adjacent_nodes := adjacent_nodes n @ [d] \<rparr> else n)
              (node_list g) \<rparr>"

text \<open>
  \<^verbatim>\<open>Graph.__depthFirstSearch\<close> and the \<^verbatim>\<open>for\<close> loop over the adjacent nodes inside it.
  The method calls itself once for each node on the path from the start node to the node it
  is visiting, one Python frame for each call, and the interpreter raises
  \<^verbatim>\<open>RecursionError\<close> at the call that would exceed its recursion limit. The first
  argument is the number of calls of the method that may still be nested: with \<open>0\<close> the
  call raises, which is the result \<open>None\<close>, and the exception leaves every enclosing call
  and loop.
\<close>

function depthFirstSearch :: "nat \<Rightarrow> graph \<Rightarrow> string \<Rightarrow> string list \<Rightarrow> (graph \<times> string list) option"
  and dfs_for :: "nat \<Rightarrow> graph \<Rightarrow> string list \<Rightarrow> string list \<Rightarrow> (graph \<times> string list) option"
where
  "depthFirstSearch 0 g n new_nodes = None"
| "depthFirstSearch (Suc depth) g n new_nodes =
     dfs_for depth (setVisited g n) (getAdjacentNodes g n) (new_nodes @ [n])"
| "dfs_for depth g [] new_nodes = Some (g, new_nodes)"
| "dfs_for depth g (adjacentNode # adjacentNodes) new_nodes =
     (if \<not> isVisited g adjacentNode
      then (case depthFirstSearch depth g adjacentNode new_nodes of
              None \<Rightarrow> None
            | Some (g', new_nodes') \<Rightarrow> dfs_for depth g' adjacentNodes new_nodes')
      else dfs_for depth g adjacentNodes new_nodes)"
  by pat_completeness auto
termination
  by (relation "inv_image (less_than <*lex*> less_than)
        (\<lambda>x. case x of Inl (depth, g, n, new_nodes) \<Rightarrow> (2 * depth, 0)
                      | Inr (depth, g, ns, new_nodes) \<Rightarrow> (2 * depth + 1, length ns))")
     auto

text \<open>
  \<^verbatim>\<open>Graph.isRegular\<close>. The start node is \<open>Some l\<close> for the node of the graph labelled
  \<open>l\<close>, and \<open>None\<close> for the \<^verbatim>\<open>Node()\<close> that \<^verbatim>\<open>__validate\<close> creates outside the graph:
  that node has no adjacent nodes, so the traversal appends it to \<^verbatim>\<open>new_nodes\<close> and
  returns. The argument \<open>limit\<close> is the number of nested calls of
  \<^verbatim>\<open>__depthFirstSearch\<close> that the recursion limit of the interpreter leaves room for
  when \<^verbatim>\<open>isRegular\<close> runs; it belongs to the interpreter and not to the program, so it
  is a parameter here and of everything that calls \<^verbatim>\<open>isRegular\<close>. \<open>reached_nodes\<close> is
  the list \<^verbatim>\<open>new_nodes\<close> after the traversal, and \<open>None\<close> when the traversal raised
  \<^verbatim>\<open>RecursionError\<close>, which \<^verbatim>\<open>isRegular\<close> does not catch.
\<close>

definition reached_nodes :: "nat \<Rightarrow> graph \<Rightarrow> string option \<Rightarrow> string list option" where
  "reached_nodes limit g init_node =
     (case init_node of
        None \<Rightarrow> (if limit = 0 then None else Some [[]])
      | Some l \<Rightarrow> map_option snd (depthFirstSearch limit g l []))"

definition isRegular :: "nat \<Rightarrow> graph \<Rightarrow> string option \<Rightarrow> error + bool" where
  "isRegular limit g init_node =
     (case reached_nodes limit g init_node of
        Some new_nodes \<Rightarrow> Inr (length new_nodes = number_of_states g)
      | None \<Rightarrow> Inl RecursionError)"

subsection \<open>Validation\<close>

text \<open>The loop over the accepting states (errors 4 and 5, first loop).\<close>

definition check_accepting :: "automaton \<Rightarrow> error + unit" where
  "check_accepting a =
     for_each (accepting_states a)
       (\<lambda>state u. if state \<notin> set (states a) then Inl (InvalidStateException state) else Inr u) ()"

text \<open>The loop over the transitions (errors 4 and 5, second loop).\<close>

definition check_transition :: "automaton \<Rightarrow> string \<Rightarrow> error + unit" where
  "check_transition a transition =
     and_then (unpack transition) (\<lambda>(s_state, s_transition, d_state).
       if s_state = [] then Inl InputIsMalformedException
       else if s_state \<notin> set (states a) then Inl (InvalidStateException s_state)
       else if d_state \<notin> set (states a) then Inl (InvalidStateException d_state)
       else if s_transition \<notin> set (alphabet a) then Inl (InvalidTransitionException s_transition)
       else Inr ())"

definition check_transitions :: "automaton \<Rightarrow> error + unit" where
  "check_transitions a = for_each (transitions a) (\<lambda>transition u. check_transition a transition) ()"

text \<open>
  The loop that builds the graph (error 6) and picks \<^verbatim>\<open>init_node\<close>, which is \<open>None\<close>
  as long as it is the \<^verbatim>\<open>Node()\<close> created before the loop.
\<close>

definition build_graph :: "automaton \<Rightarrow> error + (graph \<times> string option)" where
  "build_graph a =
     for_each (transitions a)
       (\<lambda>transition (graph, init_node).
          and_then (unpack transition) (\<lambda>(s_state, s_transition, d_state).
            let graph = addNode graph s_state;
                graph = addNode graph d_state;
                graph = addEdge graph s_state d_state;
                init_node = (if s_state = initial_state a then Some s_state else init_node);
                init_node = (if d_state = initial_state a then Some d_state else init_node)
            in Inr (graph, init_node)))
       (Graph (length (states a)), None)"

text \<open>
  \<^verbatim>\<open>state_transitions[s_state].append(s_transition)\<close> on a \<^verbatim>\<open>defaultdict(list)\<close>; the
  dictionary is an association list in insertion order.
\<close>

definition dict_append :: "(string \<times> string list) list \<Rightarrow> string \<Rightarrow> string \<Rightarrow> (string \<times> string list) list" where
  "dict_append d k v =
     (case map_of d k of
        None \<Rightarrow> d @ [(k, [v])]
      | Some vs \<Rightarrow> map (\<lambda>(k', vs'). if k' = k then (k', vs' @ [v]) else (k', vs')) d)"

definition state_transitions :: "automaton \<Rightarrow> error + (string \<times> string list) list" where
  "state_transitions a =
     for_each (transitions a)
       (\<lambda>transition d.
          and_then (unpack transition) (\<lambda>(s_state, s_transition, d_state).
            Inr (dict_append d s_state s_transition)))
       []"

text \<open>
  \<^verbatim>\<open>__validate\<close>: the statements of the method in their order, under the depth \<open>limit\<close>
  that the interpreter leaves to the traversal.
\<close>

definition validate :: "nat \<Rightarrow> automaton \<Rightarrow> error + unit" where
  "validate limit a =
     (if length (transitions a) \<noteq> card (set (transitions a)) then Inl InputIsMalformedException
      else if initial_state a = [] then Inl InitStateIsNotDefinedException
      else if initial_state a \<notin> set (states a) then Inl (InvalidStateException (initial_state a))
      else if accepting_states a = [] then Inl NoAcceptingStatesException
      else and_then (check_accepting a) (\<lambda>_.
           and_then (check_transitions a) (\<lambda>_.
           and_then (build_graph a) (\<lambda>(graph, init_node).
           and_then (isRegular limit graph init_node) (\<lambda>regular.
             if \<not> regular then Inl DisjointStatesException
             else if automaton_type a = ''deterministic''
             then and_then (state_transitions a) (\<lambda>d.
                    if list_ex (\<lambda>(s_state, transitions). card (set transitions) \<noteq> length transitions) d
                    then Inl InvalidFSATypeException
                    else Inr ())
             else Inr ())))))"

subsection \<open>The matrices of regular expressions\<close>

text \<open>
  A cell of a matrix holds a string, or the integer \<open>0\<close> that fills the fresh matrix of an
  elimination step before the step overwrites it. \<open>fmt\<close> is the text an f-string puts in
  place of a cell.
\<close>

datatype cell = Zero | Text string

fun fmt :: "cell \<Rightarrow> string" where
  "fmt Zero = ''0''"
| "fmt (Text s) = s"

type_synonym matrix = "cell list list"

text \<open>\<^verbatim>\<open>xs[i]\<close>, \<^verbatim>\<open>m[i][j]\<close> and \<^verbatim>\<open>m[i][j] = v\<close> for indices that are not negative.\<close>

definition get :: "'a list \<Rightarrow> nat \<Rightarrow> error + 'a" where
  "get xs i = (if i < length xs then Inr (xs ! i) else Inl IndexError)"

definition cell_at :: "matrix \<Rightarrow> nat \<Rightarrow> nat \<Rightarrow> error + cell" where
  "cell_at m i j = and_then (get m i) (\<lambda>row. get row j)"

definition set_cell :: "matrix \<Rightarrow> nat \<Rightarrow> nat \<Rightarrow> cell \<Rightarrow> error + matrix" where
  "set_cell m i j v =
     and_then (get m i) (\<lambda>row.
       if j < length row then Inr (m[i := row[j := v]]) else Inl IndexError)"

text \<open>\<^verbatim>\<open>[[v for row in range(n)] for column in range(n)]\<close>\<close>

definition fresh_matrix :: "nat \<Rightarrow> cell \<Rightarrow> matrix" where
  "fresh_matrix n v = replicate n (replicate n v)"

text \<open>
  The body of the two outer loops of \<^verbatim>\<open>__buildInitialRegExp\<close>: the expression for the
  pair of states \<open>(i_state, j_state)\<close>.
\<close>

definition new_regular_expression :: "automaton \<Rightarrow> string \<Rightarrow> string \<Rightarrow> error + string" where
  "new_regular_expression a i_state j_state =
     and_then
       (for_each (transitions a)
          (\<lambda>transition new.
             and_then (unpack transition) (\<lambda>(s_state, s_transition, d_state).
               Inr (if (s_state, d_state) = (i_state, j_state) then new @ s_transition @ ''|''
                    else new)))
          [])
       (\<lambda>new.
          let new = (if i_state = j_state then new @ epsilon else new);
              new = (if new = [] then empty_set else new)
          in if new = [] then Inl IndexError
             else Inr (if last new = CHR ''|'' then butlast new else new))"

definition buildInitialRegExp :: "automaton \<Rightarrow> error + matrix" where
  "buildInitialRegExp a =
     for_each (enumerate 0 (states a))
       (\<lambda>(i, i_state).
          for_each (enumerate 0 (states a))
            (\<lambda>(j, j_state) m.
               and_then (new_regular_expression a i_state j_state) (\<lambda>new.
                 set_cell m i j (Text new))))
       (fresh_matrix (length (states a)) (Text []))"

text \<open>
  One pass of the loop over \<^verbatim>\<open>step\<close> in \<^verbatim>\<open>convert\<close>: a fresh matrix is filled cell by
  cell from \<open>prev\<close>, the matrix \<^verbatim>\<open>initial_regular_expression\<close> of the previous pass.
\<close>

definition step_cell :: "matrix \<Rightarrow> nat \<Rightarrow> nat \<Rightarrow> nat \<Rightarrow> error + cell" where
  "step_cell prev step i j =
     and_then (cell_at prev i step) (\<lambda>r_ik.
     and_then (cell_at prev step step) (\<lambda>r_kk.
     and_then (cell_at prev step j) (\<lambda>r_kj.
     and_then (cell_at prev i j) (\<lambda>r_ij.
       Inr (Text (''('' @ fmt r_ik @ '')('' @ fmt r_kk @ '')*('' @ fmt r_kj @ '')|(''
                  @ fmt r_ij @ '')''))))))"

definition elimination_step :: "nat \<Rightarrow> matrix \<Rightarrow> nat \<Rightarrow> error + matrix" where
  "elimination_step n prev step =
     for_each [0..<n]
       (\<lambda>i. for_each [0..<n]
          (\<lambda>j regular_expression.
             and_then (step_cell prev step i j) (set_cell regular_expression i j)))
       (fresh_matrix n Zero)"

definition eliminate_all :: "nat \<Rightarrow> matrix \<Rightarrow> error + matrix" where
  "eliminate_all n initial_regular_expression =
     for_each [0..<n] (\<lambda>step prev. elimination_step n prev step) initial_regular_expression"

text \<open>The loop that collects \<^verbatim>\<open>answer\<close> and counts \<^verbatim>\<open>path\<close>, and the final \<^verbatim>\<open>match\<close>.\<close>

definition collect_answer :: "automaton \<Rightarrow> matrix \<Rightarrow> error + (string \<times> nat)" where
  "collect_answer a m =
     for_each [0..<length (states a)]
       (\<lambda>i (answer, path).
          and_then (get (states a) i) (\<lambda>state.
            if state \<in> set (accepting_states a)
            then and_then (cell_at m 0 i) (\<lambda>c. Inr (answer @ ''('' @ fmt c @ '')|'', path + 1))
            else Inr (answer, path)))
       ([], 0)"

text \<open>
  \<^verbatim>\<open>convert\<close> from the call of \<^verbatim>\<open>__buildInitialRegExp\<close> on: the matrix after the
  last elimination step, and the answer read from it.
\<close>

definition final_matrix :: "automaton \<Rightarrow> error + matrix" where
  "final_matrix a =
     and_then (buildInitialRegExp a) (\<lambda>initial_regular_expression.
       eliminate_all (length (states a)) initial_regular_expression)"

definition construct :: "automaton \<Rightarrow> error + string" where
  "construct a =
     and_then (final_matrix a) (\<lambda>m.
     and_then (collect_answer a m) (\<lambda>(answer, path).
       Inr (if path = 0 then empty_set else butlast answer)))"

text \<open>
  \<^verbatim>\<open>convert\<close> on an automaton that has been extracted, and on the lines of the input file.
  \<open>Inl e\<close> is the exception that leaves \<^verbatim>\<open>__extract\<close>, \<^verbatim>\<open>__validate\<close> or the
  construction; the construction runs only when validation has returned.
\<close>

definition convert_automaton :: "nat \<Rightarrow> automaton \<Rightarrow> error + string" where
  "convert_automaton limit a = and_then (validate limit a) (\<lambda>_. construct a)"

definition convert :: "nat \<Rightarrow> string list \<Rightarrow> error + string" where
  "convert limit file = and_then (extract_file file) (convert_automaton limit)"

subsection \<open>The process\<close>

text \<open>
  What a run leaves behind: the lines printed on standard output and the exit status.
  A \<^verbatim>\<open>ConverterException\<close> is caught in \<^verbatim>\<open>convert\<close>, printed, and the process ends with
  \<^verbatim>\<open>exit()\<close>, which without an argument gives the exit status 0. Any other exception is
  not caught: the interpreter prints a traceback on standard error and ends with status 1.
\<close>

record outcome =
  stdout :: "string list"
  exit_status :: nat

definition main :: "nat \<Rightarrow> string list \<Rightarrow> outcome" where
  "main limit file =
     (case convert limit file of
        Inl exception \<Rightarrow>
          if is_ConverterException exception
          then \<lparr> stdout = [message exception], exit_status = 0 \<rparr>
          else \<lparr> stdout = [], exit_status = 1 \<rparr>
      | Inr answer \<Rightarrow> \<lparr> stdout = [answer], exit_status = 0 \<rparr>)"

section \<open>What the output denotes\<close>

text \<open>
  The output is read with the usual grammar of regular expressions. A maximal run of
  characters other than the parentheses, the bar and the star is one word: \<open>eps\<close> is the
  empty string, \<open>{}\<close> the empty language, any other word an input symbol. The star binds
  tighter than concatenation and concatenation tighter than alternation. A language is a
  set of words over the symbols, a word a list of symbols.
\<close>

datatype rexp = EmptySet | EmptyWord | Sym string | Alt rexp rexp | Cat rexp rexp | Star rexp

datatype token = LPar | RPar | Bar | Ast | Word string

definition flush :: "string \<Rightarrow> token list" where
  "flush w = (if w = [] then [] else [Word w])"

fun lex :: "string \<Rightarrow> string \<Rightarrow> token list" where
  "lex w [] = flush w"
| "lex w (c # cs) =
     (if c = CHR ''('' then flush w @ LPar # lex [] cs
      else if c = CHR '')'' then flush w @ RPar # lex [] cs
      else if c = CHR ''|'' then flush w @ Bar # lex [] cs
      else if c = CHR ''*'' then flush w @ Ast # lex [] cs
      else lex (w @ [c]) cs)"

definition atom :: "string \<Rightarrow> rexp" where
  "atom w = (if w = epsilon then EmptyWord else if w = empty_set then EmptySet else Sym w)"

text \<open>
  A frame holds the alternatives already closed at the current nesting depth and the
  factors of the alternative being read. An alternative without factors is a syntax error.
\<close>

type_synonym frame = "rexp list \<times> rexp list"

fun close_cat :: "rexp list \<Rightarrow> rexp option" where
  "close_cat [] = None"
| "close_cat (r # rs) = Some (foldl Cat r rs)"

fun close_alt :: "frame \<Rightarrow> rexp option" where
  "close_alt (alts, factors) =
     (case close_cat factors of
        None \<Rightarrow> None
      | Some c \<Rightarrow> (case alts of [] \<Rightarrow> Some c | r # rs \<Rightarrow> Some (foldl Alt r (rs @ [c]))))"

fun parse_tokens :: "token list \<Rightarrow> frame \<Rightarrow> frame list \<Rightarrow> rexp option" where
  "parse_tokens [] fr [] = close_alt fr"
| "parse_tokens [] fr (outer # stack) = None"
| "parse_tokens (Word w # ts) (alts, factors) stack =
     parse_tokens ts (alts, factors @ [atom w]) stack"
| "parse_tokens (Ast # ts) (alts, factors) stack =
     (if factors = [] then None
      else parse_tokens ts (alts, butlast factors @ [Star (last factors)]) stack)"
| "parse_tokens (Bar # ts) (alts, factors) stack =
     (case close_cat factors of
        None \<Rightarrow> None
      | Some c \<Rightarrow> parse_tokens ts (alts @ [c], []) stack)"
| "parse_tokens (LPar # ts) fr stack = parse_tokens ts ([], []) (fr # stack)"
| "parse_tokens (RPar # ts) fr [] = None"
| "parse_tokens (RPar # ts) fr ((alts, factors) # stack) =
     (case close_alt fr of
        None \<Rightarrow> None
      | Some r \<Rightarrow> parse_tokens ts (alts, factors @ [r]) stack)"

definition parse_regex :: "string \<Rightarrow> rexp option" where
  "parse_regex s = parse_tokens (lex [] s) ([], []) []"

definition conc :: "'a list set \<Rightarrow> 'a list set \<Rightarrow> 'a list set" where
  "conc A B = {u @ v | u v. u \<in> A \<and> v \<in> B}"

inductive_set star :: "'a list set \<Rightarrow> 'a list set" for A :: "'a list set" where
  star_empty: "[] \<in> star A"
| star_step: "u \<in> A \<Longrightarrow> v \<in> star A \<Longrightarrow> u @ v \<in> star A"

fun lang :: "rexp \<Rightarrow> string list set" where
  "lang EmptySet = {}"
| "lang EmptyWord = {[]}"
| "lang (Sym a) = {[a]}"
| "lang (Alt r s) = lang r \<union> lang s"
| "lang (Cat r s) = conc (lang r) (lang s)"
| "lang (Star r) = star (lang r)"

definition denotes :: "string \<Rightarrow> string list set \<Rightarrow> bool" where
  "denotes s L = (case parse_regex s of None \<Rightarrow> False | Some r \<Rightarrow> lang r = L)"

section \<open>Notions of the specification\<close>

text \<open>The alternatives \<open>xs\<close> joined by the separator: no separator after the last one.\<close>

fun join :: "string \<Rightarrow> string list \<Rightarrow> string" where
  "join sep [] = []"
| "join sep [x] = x"
| "join sep (x # y # ys) = x @ sep @ join sep (y # ys)"

text \<open>The position of the initial state in the sorted list of states.\<close>

definition initial_index :: "automaton \<Rightarrow> nat" where
  "initial_index a = length (takeWhile (\<lambda>s. s \<noteq> initial_state a) (states a))"

text \<open>
  The alternation, over every index \<open>i\<close> of an accepting state, of the entry \<open>(r, i)\<close> of
  the matrix \<open>m\<close>, each entry in parentheses.
\<close>

definition row_alternation :: "automaton \<Rightarrow> matrix \<Rightarrow> nat \<Rightarrow> string" where
  "row_alternation a m r =
     join ''|'' (map (\<lambda>i. ''('' @ fmt (m ! r ! i) @ '')'')
                  (filter (\<lambda>i. states a ! i \<in> set (accepting_states a)) [0..<length (states a)]))"

text \<open>
  The transitions as triples of source, symbol and destination; a token without exactly
  three fields is no triple.
\<close>

definition triples_of :: "string list \<Rightarrow> (string \<times> string \<times> string) list" where
  "triples_of ts = concat (map (\<lambda>t. case unpack t of Inr tr \<Rightarrow> [tr] | Inl e \<Rightarrow> []) ts)"

definition three_fields :: "automaton \<Rightarrow> bool" where
  "three_fields a = (\<forall>t \<in> set (transitions a). length (split CHR ''>'' t) = 3)"

text \<open>
  The alternatives of the cell \<open>(i, j)\<close> of the base matrix: the symbols of the transitions
  from state \<open>i\<close> to state \<open>j\<close>, in the order of the transitions, and the epsilon token
  when \<open>i = j\<close>. The cell is their alternation, or the marker of the empty language when
  there is none.
\<close>

definition symbols_between :: "string list \<Rightarrow> string \<Rightarrow> string \<Rightarrow> string list" where
  "symbols_between ts s d =
     map (\<lambda>(s', x, d'). x) (filter (\<lambda>(s', x, d'). s' = s \<and> d' = d) (triples_of ts))"

definition alternatives :: "automaton \<Rightarrow> nat \<Rightarrow> nat \<Rightarrow> string list" where
  "alternatives a i j =
     symbols_between (transitions a) (states a ! i) (states a ! j)
     @ (if i = j then [epsilon] else [])"

definition base_cell :: "automaton \<Rightarrow> nat \<Rightarrow> nat \<Rightarrow> string" where
  "base_cell a i j =
     (if alternatives a i j = [] then empty_set else join ''|'' (alternatives a i j))"

definition base_matrix :: "automaton \<Rightarrow> matrix" where
  "base_matrix a =
     map (\<lambda>i. map (\<lambda>j. Text (base_cell a i j)) [0..<length (states a)]) [0..<length (states a)]"

text \<open>
  The recurrence of the elimination of state \<open>k\<close>, read from the matrix \<open>prev\<close> of the
  previous step only, and the matrix it gives when every cell is computed from \<open>prev\<close>.
\<close>

definition recurrence :: "matrix \<Rightarrow> nat \<Rightarrow> nat \<Rightarrow> nat \<Rightarrow> cell" where
  "recurrence prev k i j =
     Text (''('' @ fmt (prev ! i ! k) @ '')('' @ fmt (prev ! k ! k) @ '')*(''
           @ fmt (prev ! k ! j) @ '')|('' @ fmt (prev ! i ! j) @ '')'')"

definition pure_step :: "nat \<Rightarrow> matrix \<Rightarrow> nat \<Rightarrow> matrix" where
  "pure_step n prev k = map (\<lambda>i. map (\<lambda>j. recurrence prev k i j) [0..<n]) [0..<n]"

text \<open>The matrix \<^verbatim>\<open>convert\<close> holds after \<open>k\<close> passes of its loop over \<^verbatim>\<open>step\<close>.\<close>

definition matrix_after :: "automaton \<Rightarrow> nat \<Rightarrow> error + matrix" where
  "matrix_after a k =
     and_then (buildInitialRegExp a)
       (for_each [0..<k] (\<lambda>step prev. elimination_step (length (states a)) prev step))"

definition square :: "nat \<Rightarrow> matrix \<Rightarrow> bool" where
  "square n m = (length m = n \<and> (\<forall>row \<in> set m. length row = n))"

text \<open>
  The symbols on the transitions that leave the state \<open>s\<close>, in the order of the
  transitions, the source states, and the states that occur in a transition as source or
  as destination.
\<close>

definition outgoing_of :: "string list \<Rightarrow> string \<Rightarrow> string list" where
  "outgoing_of ts s = map (\<lambda>(s', x, d). x) (filter (\<lambda>(s', x, d). s' = s) (triples_of ts))"

definition sources_of :: "string list \<Rightarrow> string list" where
  "sources_of ts = map (\<lambda>(s, x, d). s) (triples_of ts)"

definition outgoing :: "automaton \<Rightarrow> string \<Rightarrow> string list" where
  "outgoing a s = outgoing_of (transitions a) s"

definition mentioned_of :: "string list \<Rightarrow> string list" where
  "mentioned_of ts = concat (map (\<lambda>(s, x, d). [s, d]) (triples_of ts))"

definition mentioned :: "automaton \<Rightarrow> string list" where
  "mentioned a = mentioned_of (transitions a)"

text \<open>
  The seven checks of the validator, each on its own: \<open>None\<close> when the automaton passes
  the check, otherwise the error of the check.
  \<^enum> The collection of transitions contains a duplicate.
  \<^enum> The initial state is empty, or is not a declared state.
  \<^enum> The list of accepting states is empty.
  \<^enum> An accepting state is not a declared state; the first such state is reported.
  \<^enum> A transition has an empty or undeclared source, an undeclared destination or a symbol
    outside the alphabet; the first violation of the first such transition is reported.
  \<^enum> The number of nodes reached from the node of the initial state differs from the
    number of declared states; the traversal that collects them may raise
    \<^verbatim>\<open>RecursionError\<close> first.
  \<^enum> The type is \<open>deterministic\<close> and the symbols that leave some source state contain a
    repetition.
\<close>

definition check1 :: "automaton \<Rightarrow> error option" where
  "check1 a = (if \<not> distinct (transitions a) then Some InputIsMalformedException else None)"

definition check2 :: "automaton \<Rightarrow> error option" where
  "check2 a =
     (if initial_state a = [] then Some InitStateIsNotDefinedException
      else if initial_state a \<notin> set (states a) then Some (InvalidStateException (initial_state a))
      else None)"

definition check3 :: "automaton \<Rightarrow> error option" where
  "check3 a = (if accepting_states a = [] then Some NoAcceptingStatesException else None)"

definition check4 :: "automaton \<Rightarrow> error option" where
  "check4 a =
     (case find (\<lambda>state. state \<notin> set (states a)) (accepting_states a) of
        Some state \<Rightarrow> Some (InvalidStateException state)
      | None \<Rightarrow> None)"

definition check5 :: "automaton \<Rightarrow> error option" where
  "check5 a =
     (case find (\<lambda>t. check_transition a t \<noteq> Inr ()) (transitions a) of
        Some t \<Rightarrow> (case check_transition a t of Inl e \<Rightarrow> Some e | Inr u \<Rightarrow> None)
      | None \<Rightarrow> None)"

definition check6 :: "nat \<Rightarrow> automaton \<Rightarrow> error option" where
  "check6 limit a =
     (case build_graph a of
        Inl e \<Rightarrow> Some e
      | Inr (g, init_node) \<Rightarrow>
          (case reached_nodes limit g init_node of
             Some new_nodes \<Rightarrow>
               if length new_nodes \<noteq> length (states a) then Some DisjointStatesException
               else None
           | None \<Rightarrow> Some RecursionError))"

definition check7 :: "automaton \<Rightarrow> error option" where
  "check7 a =
     (if automaton_type a = ''deterministic''
         \<and> list_ex (\<lambda>s. \<not> distinct (outgoing a s)) (sources_of (transitions a))
      then Some InvalidFSATypeException else None)"

text \<open>The error of the first check that fails, in the order of the list.\<close>

fun first_failure :: "error option list \<Rightarrow> error + unit" where
  "first_failure [] = Inr ()"
| "first_failure (None # checks) = first_failure checks"
| "first_failure (Some e # checks) = Inl e"

definition validate_in_order :: "nat \<Rightarrow> automaton \<Rightarrow> error + unit" where
  "validate_in_order limit a =
     first_failure [check1 a, check2 a, check3 a, check4 a, check5 a, check6 limit a, check7 a]"

text \<open>The loop of error 7 started from a dictionary that is not empty.\<close>

definition group_from :: "string list \<Rightarrow> (string \<times> string list) list \<Rightarrow> error + (string \<times> string list) list" where
  "group_from ts d =
     for_each ts
       (\<lambda>transition d.
          and_then (unpack transition) (\<lambda>(s_state, s_transition, d_state).
            Inr (dict_append d s_state s_transition)))
       d"

text \<open>
  The labels of the nodes of a graph, the labels of its visited nodes, and the graphs in
  which every label names one node and every adjacent node is a node of the graph.
\<close>

definition labels :: "graph \<Rightarrow> string list" where
  "labels g = map label (node_list g)"

definition visited :: "graph \<Rightarrow> string set" where
  "visited g = label ` {n \<in> set (node_list g). is_visited n}"

definition closed_graph :: "graph \<Rightarrow> bool" where
  "closed_graph g =
     (distinct (labels g) \<and> (\<forall>n \<in> set (node_list g). set (adjacent_nodes n) \<subseteq> set (labels g)))"

text \<open>Two graphs that differ in the marks of their nodes at most.\<close>

definition same_shape :: "graph \<Rightarrow> graph \<Rightarrow> bool" where
  "same_shape g g' =
     (number_of_states g' = number_of_states g \<and>
      map label (node_list g') = map label (node_list g) \<and>
      map adjacent_nodes (node_list g') = map adjacent_nodes (node_list g))"

text \<open>
  The state of a traversal: the nodes collected so far are the visited nodes, each once.
  A traversal only marks nodes, and the unvisited nodes bound the depth of its recursion.
\<close>

definition consistent :: "graph \<Rightarrow> string list \<Rightarrow> bool" where
  "consistent g new_nodes =
     (closed_graph g \<and> distinct new_nodes \<and> set new_nodes = visited g)"

definition marks_more :: "graph \<Rightarrow> graph \<Rightarrow> bool" where
  "marks_more g g' = (same_shape g g' \<and> visited g \<subseteq> visited g')"

definition unvisited :: "graph \<Rightarrow> nat" where
  "unvisited g = card (set (labels g) - visited g)"

text \<open>The loop that builds the graph, started from any graph and any start node.\<close>

definition build_from :: "string \<Rightarrow> string list \<Rightarrow> graph \<times> string option \<Rightarrow> error + (graph \<times> string option)" where
  "build_from initial ts st =
     for_each ts
       (\<lambda>transition (graph, init_node).
          and_then (unpack transition) (\<lambda>(s_state, s_transition, d_state).
            let graph = addNode graph s_state;
                graph = addNode graph d_state;
                graph = addEdge graph s_state d_state;
                init_node = (if s_state = initial then Some s_state else init_node);
                init_node = (if d_state = initial then Some d_state else init_node)
            in Inr (graph, init_node)))
       st"

section \<open>Inputs used below\<close>

text \<open>
  An input file is given by its lines; iterating over the file yields each line with the
  newline character that ends it. Where a run on one of these inputs is evaluated under a
  fixed limit, the limit is \<open>1000\<close>, the size of the default recursion limit of CPython.
  The inputs have four states at most, and a run that does not end with
  \<^verbatim>\<open>RecursionError\<close> is the same under every greater limit (\<open>validate_more_depth\<close>,
  \<open>convert_more_depth\<close>).
\<close>

definition file_of :: "string list \<Rightarrow> string list" where
  "file_of ls = map (\<lambda>l. l @ [CHR 0x0A]) ls"

text \<open>The trivial automaton: one state with a loop on \<open>a\<close>, initial and accepting.\<close>

definition trivial_file :: "string list" where
  "trivial_file =
     file_of
      [''type=[deterministic]'', ''states=[q0]'', ''alphabet=[a]'', ''initial=[q0]'',
      ''accepting=[q0]'', ''transitions=[q0>a>q0]'']"

text \<open>Two states; the initial state \<open>q1\<close> is accepting and sorts after \<open>q0\<close>.\<close>

definition initial_second_file :: "string list" where
  "initial_second_file =
     file_of
      [''type=[non-deterministic]'', ''states=[q0,q1]'', ''alphabet=[a]'', ''initial=[q1]'',
      ''accepting=[q1]'', ''transitions=[q1>a>q0]'']"

text \<open>The same automaton with an empty list of accepting states.\<close>

definition no_accepting_file :: "string list" where
  "no_accepting_file =
     file_of
      [''type=[non-deterministic]'', ''states=[q0,q1]'', ''alphabet=[a]'', ''initial=[q1]'',
      ''accepting=[]'', ''transitions=[q1>a>q0]'']"

definition initial_second :: automaton where
  "initial_second =
     \<lparr> automaton_type = ''non-deterministic'', states = [''q0'', ''q1''], alphabet = [''a''],
       initial_state = ''q1'', accepting_states = [''q1''], transitions = [''q1>a>q0''] \<rparr>"

text \<open>Three declared states, of which \<open>q2\<close> occurs in no transition.\<close>

definition unreferenced_state_file :: "string list" where
  "unreferenced_state_file =
     file_of
      [''type=[deterministic]'', ''states=[q0,q1,q2]'', ''alphabet=[a]'', ''initial=[q0]'',
      ''accepting=[q1]'', ''transitions=[q0>a>q1]'']"

text \<open>Two transitions from \<open>q0\<close> on \<open>a\<close>, under a type that is not spelled \<open>deterministic\<close>.\<close>

definition misspelled_type :: automaton where
  "misspelled_type =
     \<lparr> automaton_type = ''determinstic'', states = [''q0'', ''q1'', ''q2''], alphabet = [''a''],
       initial_state = ''q0'', accepting_states = [''q1''],
       transitions = [''q0>a>q1'', ''q0>a>q2''] \<rparr>"

text \<open>Two symbols from \<open>q0\<close> to \<open>q1\<close> and a loop on \<open>q1\<close>.\<close>

definition two_symbols :: automaton where
  "two_symbols =
     \<lparr> automaton_type = ''deterministic'', states = [''q0'', ''q1''], alphabet = [''a'', ''b''],
       initial_state = ''q0'', accepting_states = [''q1''],
       transitions = [''q0>a>q1'', ''q0>b>q1'', ''q1>a>q1''] \<rparr>"

text \<open>An automaton that fails the first three checks at once.\<close>

definition many_failures :: automaton where
  "many_failures =
     \<lparr> automaton_type = ''deterministic'', states = [''q0'', ''q1''], alphabet = [''a''],
       initial_state = [], accepting_states = [],
       transitions = [''q0>a>q1'', ''q0>a>q1''] \<rparr>"

text \<open>
  Two transitions from \<open>q0\<close> on \<open>a\<close> under the type \<open>deterministic\<close>, and a declared
  state \<open>q3\<close> that occurs in no transition.
\<close>

definition repeated_symbol_and_unreferenced_state_file :: "string list" where
  "repeated_symbol_and_unreferenced_state_file =
     file_of
      [''type=[deterministic]'', ''states=[q0,q1,q2,q3]'', ''alphabet=[a]'', ''initial=[q0]'',
      ''accepting=[q1]'', ''transitions=[q0>a>q1,q0>a>q2]'']"

definition repeated_symbol_and_unreferenced_state :: automaton where
  "repeated_symbol_and_unreferenced_state =
     \<lparr> automaton_type = ''deterministic'', states = [''q0'', ''q1'', ''q2'', ''q3''],
       alphabet = [''a''], initial_state = ''q0'', accepting_states = [''q1''],
       transitions = [''q0>a>q1'', ''q0>a>q2''] \<rparr>"

text \<open>Two transitions from \<open>q0\<close> on \<open>a\<close> under the type \<open>deterministic\<close>.\<close>

definition repeated_symbol :: automaton where
  "repeated_symbol =
     \<lparr> automaton_type = ''deterministic'', states = [''q0'', ''q1'', ''q2''], alphabet = [''a''],
       initial_state = ''q0'', accepting_states = [''q1''],
       transitions = [''q0>a>q1'', ''q0>a>q2''] \<rparr>"

text \<open>
  The declared state \<open>q1\<close> occurs in no transition, and the only transition leads to a
  state \<open>q5\<close> that is not declared.
\<close>

definition unreferenced_and_undeclared_file :: "string list" where
  "unreferenced_and_undeclared_file =
     file_of
      [''type=[deterministic]'', ''states=[q0,q1]'', ''alphabet=[a]'', ''initial=[q0]'',
      ''accepting=[q0]'', ''transitions=[q0>a>q5]'']"

definition unreferenced_and_undeclared :: automaton where
  "unreferenced_and_undeclared =
     \<lparr> automaton_type = ''deterministic'', states = [''q0'', ''q1''], alphabet = [''a''],
       initial_state = ''q0'', accepting_states = [''q0''], transitions = [''q0>a>q5''] \<rparr>"

definition unreferenced_state :: automaton where
  "unreferenced_state =
     \<lparr> automaton_type = ''deterministic'', states = [''q0'', ''q1'', ''q2''], alphabet = [''a''],
       initial_state = ''q0'', accepting_states = [''q1''], transitions = [''q0>a>q1''] \<rparr>"

text \<open>
  An alphabet whose second symbol is the empty string, and two transitions from \<open>q0\<close> to
  \<open>q1\<close>, the second on the empty symbol.
\<close>

definition empty_symbol_file :: "string list" where
  "empty_symbol_file =
     file_of
      [''type=[deterministic]'', ''states=[q0,q1]'', ''alphabet=[a,]'', ''initial=[q0]'',
      ''accepting=[q1]'', ''transitions=[q0>a>q1,q0>>q1]'']"

definition empty_symbol :: automaton where
  "empty_symbol =
     \<lparr> automaton_type = ''deterministic'', states = [''q0'', ''q1''], alphabet = [''a'', []],
       initial_state = ''q0'', accepting_states = [''q1''],
       transitions = [''q0>a>q1'', ''q0>>q1''] \<rparr>"

section \<open>Properties\<close>

subsection \<open>Sequencing and loops\<close>

lemma and_then_Inr [simp]: "and_then (Inr x) f = f x"
  by (simp add: and_then_def)

lemma and_then_Inl [simp]: "and_then (Inl e) f = Inl e"
  by (simp add: and_then_def)

lemma and_then_eq_Inr: "and_then m f = Inr y \<longleftrightarrow> (\<exists>x. m = Inr x \<and> f x = Inr y)"
  by (cases m) simp_all

lemma and_then_eq_Inl: "and_then m f = Inl e \<longleftrightarrow> m = Inl e \<or> (\<exists>x. m = Inr x \<and> f x = Inl e)"
  by (cases m) simp_all

text \<open>An exception that leaves a loop was raised by its body.\<close>

lemma for_each_error:
  "for_each xs body s = Inl e \<Longrightarrow> \<exists>x \<in> set xs. \<exists>s'. body x s' = Inl e"
proof (induction xs arbitrary: s)
  case Nil
  then show ?case by simp
next
  case (Cons x xs)
  show ?case
  proof (cases "body x s")
    case (Inl e')
    with Cons.prems have "body x s = Inl e" by simp
    then show ?thesis by auto
  next
    case (Inr s')
    with Cons.prems have "for_each xs body s' = Inl e" by simp
    from Cons.IH [OF this] show ?thesis by auto
  qed
qed

lemma unpack_error: "unpack t = Inl e \<Longrightarrow> e = ValueError"
  by (auto simp: unpack_def split: list.splits)

lemma extract_file_error: "extract_file file = Inl e \<Longrightarrow> e = InputIsMalformedException"
  by (auto simp: extract_file_def split: option.splits)

subsection \<open>Languages\<close>

lemma conc_empty_left: "conc {} B = {}"
  by (simp add: conc_def)

lemma conc_empty_right: "conc A {} = {}"
  by (simp add: conc_def)

lemma conc_eps_left: "conc {[]} B = B"
  by (auto simp: conc_def)

lemma conc_eps_right: "conc A {[]} = A"
  by (auto simp: conc_def)

lemma star_eps: "star {[]} = {[]}"
proof (rule set_eqI, rule iffI)
  fix w :: "'a list"
  assume "w \<in> star {[]}"
  then show "w \<in> {[]}"
    by (induction rule: star.induct) simp_all
next
  fix w :: "'a list"
  assume "w \<in> {[]}"
  then show "w \<in> star {[]}"
    by (simp add: star.star_empty)
qed

lemma star_a_eps: "star ({[a]} \<union> {[]}) = range (\<lambda>n. replicate n a)"
proof (rule set_eqI, rule iffI)
  fix w :: "'a list"
  assume "w \<in> star ({[a]} \<union> {[]})"
  then show "w \<in> range (\<lambda>n. replicate n a)"
  proof (induction rule: star.induct)
    case star_empty
    have "[] = replicate 0 a" by simp
    then show ?case by (rule range_eqI)
  next
    case (star_step u v)
    then obtain n where v: "v = replicate n a" by auto
    from star_step.hyps(1) have "u = [a] \<or> u = []" by blast
    then show ?case
    proof
      assume "u = [a]"
      with v have "u @ v = replicate (Suc n) a" by simp
      then show ?thesis by (rule range_eqI)
    next
      assume "u = []"
      with v have "u @ v = replicate n a" by simp
      then show ?thesis by (rule range_eqI)
    qed
  qed
next
  fix w :: "'a list"
  assume "w \<in> range (\<lambda>n. replicate n a)"
  then obtain n where w: "w = replicate n a" by auto
  have "replicate n a \<in> star ({[a]} \<union> {[]})"
  proof (induction n)
    case 0
    show ?case using star.star_empty [of "{[a]} \<union> {[]}"] by simp
  next
    case (Suc n)
    have "[a] \<in> {[a]} \<union> {[]}" by simp
    then have "[a] @ replicate n a \<in> star ({[a]} \<union> {[]})"
      using Suc by (rule star.star_step)
    then show ?case by simp
  qed
  with w show "w \<in> star ({[a]} \<union> {[]})" by simp
qed

text \<open>The language of \<open>(a|eps)(a|eps)*(a|eps)|(a|eps)\<close> is the set of all powers of \<open>a\<close>.\<close>

lemma lang_trivial:
  "lang (Alt (Cat (Cat (Alt (Sym a) EmptyWord) (Star (Alt (Sym a) EmptyWord)))
                  (Alt (Sym a) EmptyWord)) (Alt (Sym a) EmptyWord))
     = range (\<lambda>n. replicate n a)" (is "?L = ?R")
proof (rule set_eqI, rule iffI)
  fix w assume "w \<in> ?L"
  then consider "w \<in> conc (conc ({[a]} \<union> {[]}) (star ({[a]} \<union> {[]}))) ({[a]} \<union> {[]})"
    | "w \<in> ({[a]} \<union> {[]})"
    by (simp only: lang.simps) blast
  then show "w \<in> ?R"
  proof cases
    case 1
    then obtain x v where wx: "w = x @ v"
      and x: "x \<in> conc ({[a]} \<union> {[]}) (star ({[a]} \<union> {[]}))"
      and v: "v \<in> ({[a]} \<union> {[]})"
      unfolding conc_def by blast
    from x obtain u y where xu: "x = u @ y" and u: "u \<in> ({[a]} \<union> {[]})"
      and y: "y \<in> star ({[a]} \<union> {[]})"
      unfolding conc_def by blast
    from y obtain m where ym: "y = replicate m a"
      unfolding star_a_eps by blast
    have w: "w = (u @ replicate m a) @ v"
      by (simp add: wx xu ym)
    from u have "u = replicate 1 a \<or> u = replicate 0 a" by auto
    then obtain i where ui: "u = replicate i a" by blast
    from v have "v = replicate 1 a \<or> v = replicate 0 a" by auto
    then obtain j where vj: "v = replicate j a" by blast
    have "w = replicate (i + m + j) a" unfolding w ui vj by (simp add: replicate_add)
    then show ?thesis by (rule range_eqI)
  next
    case 2
    then have "w = replicate 1 a \<or> w = replicate 0 a" by auto
    then show ?thesis by blast
  qed
next
  fix w assume "w \<in> ?R"
  then obtain n where w: "w = replicate n a" by auto
  have "[] \<in> ({[a]} \<union> {[]})" by simp
  moreover have "replicate n a \<in> star ({[a]} \<union> {[]})" unfolding star_a_eps by simp
  ultimately have "([] @ replicate n a) @ [] \<in> conc (conc ({[a]} \<union> {[]}) (star ({[a]} \<union> {[]}))) ({[a]} \<union> {[]})"
    unfolding conc_def by blast
  with w show "w \<in> ?L" by (simp only: lang.simps) simp
qed

subsection \<open>The trivial automaton\<close>

text \<open>
  Claim C2: for the automaton with the single state \<open>q0\<close>, the alphabet \<open>{a}\<close>, the initial
  state \<open>q0\<close>, the accepting state \<open>q0\<close> and the single transition \<open>q0>a>q0\<close>, the string
  produced by \<open>convert\<close> denotes exactly the language of all finite strings of \<open>a\<close>,
  the empty string included. The traversal of the one state needs one call, so this is the
  output under every limit \<open>Suc d\<close>.
\<close>

theorem trivial_automaton_denotes_a_star:
  "convert (Suc d) trivial_file = Inr ''((a|eps)(a|eps)*(a|eps)|(a|eps))'' \<and>
   denotes ''((a|eps)(a|eps)*(a|eps)|(a|eps))'' (range (\<lambda>n. replicate n ''a''))"
proof
  show "convert (Suc d) trivial_file = Inr ''((a|eps)(a|eps)*(a|eps)|(a|eps))''"
    by code_simp
  have "parse_regex ''((a|eps)(a|eps)*(a|eps)|(a|eps))'' =
        Some (Alt (Cat (Cat (Alt (Sym ''a'') EmptyWord) (Star (Alt (Sym ''a'') EmptyWord)))
                       (Alt (Sym ''a'') EmptyWord)) (Alt (Sym ''a'') EmptyWord))"
    by code_simp
  then show "denotes ''((a|eps)(a|eps)*(a|eps)|(a|eps))'' (range (\<lambda>n. replicate n ''a''))"
    unfolding denotes_def by (simp only: option.case lang_trivial)
qed

subsection \<open>The type of the automaton\<close>

lemma check_accepting_error:
  "check_accepting a = Inl e \<Longrightarrow> \<exists>s. e = InvalidStateException s"
  unfolding check_accepting_def
  by (drule for_each_error) (auto split: if_splits)

lemma check_transitions_error:
  "check_transitions a = Inl e \<Longrightarrow> e \<noteq> InvalidFSATypeException"
  unfolding check_transitions_def check_transition_def
  by (drule for_each_error) (auto simp: and_then_eq_Inl dest: unpack_error split: if_splits)

lemma build_graph_error:
  "build_graph a = Inl e \<Longrightarrow> e = ValueError"
  unfolding build_graph_def
  by (drule for_each_error) (auto simp: and_then_eq_Inl Let_def dest: unpack_error split: if_splits)

lemma validate_type_irrelevant:
  assumes "automaton_type a \<noteq> ''deterministic''"
  shows "validate limit a = validate limit (a\<lparr>automaton_type := ''non-deterministic''\<rparr>)"
  using assms
  by (simp add: validate_def check_accepting_def check_transitions_def check_transition_def
      build_graph_def cong: if_cong)

lemma construct_type_irrelevant:
  "construct (a\<lparr>automaton_type := t\<rparr>) = construct a"
  by (simp add: construct_def final_matrix_def buildInitialRegExp_def new_regular_expression_def
      collect_answer_def cong: if_cong)

lemma validate_not_FSAType:
  assumes "automaton_type a \<noteq> ''deterministic''"
  shows "validate limit a \<noteq> Inl InvalidFSATypeException"
proof
  assume v: "validate limit a = Inl InvalidFSATypeException"
  show False
  proof (cases "check_accepting a")
    case (Inl e)
    with v assms check_accepting_error [OF Inl] show False
      by (auto simp: validate_def split: if_splits)
  next
    case acc: (Inr u)
    show False
    proof (cases "check_transitions a")
      case (Inl e)
      with v assms acc check_transitions_error [OF Inl] show False
        by (auto simp: validate_def split: if_splits)
    next
      case tr: (Inr u')
      show False
      proof (cases "build_graph a")
        case (Inl e)
        with v assms acc tr build_graph_error [OF Inl] show False
          by (auto simp: validate_def split: if_splits)
      next
        case (Inr gi)
        with v assms acc tr show False
          by (cases gi)
             (auto simp: validate_def and_then_eq_Inl isRegular_def split: if_splits option.splits)
      qed
    qed
  qed
qed

text \<open>
  Claim C10: the declared type is never validated. For every input whose type is any
  string other than exactly \<open>deterministic\<close>, no error is raised on account of the type,
  the check for non-determinism is skipped, and the automaton is processed as if its type
  were \<open>non-deterministic\<close>: validation and conversion give what they give for that type.
\<close>

theorem type_token_is_not_validated:
  assumes "automaton_type a \<noteq> ''deterministic''"
  shows "validate limit a \<noteq> Inl InvalidFSATypeException \<and>
         check7 a = None \<and>
         validate limit a = validate limit (a\<lparr>automaton_type := ''non-deterministic''\<rparr>) \<and>
         convert_automaton limit a = convert_automaton limit (a\<lparr>automaton_type := ''non-deterministic''\<rparr>) \<and>
         (\<forall>file. extract_file file = Inr a \<longrightarrow>
            convert limit file = convert_automaton limit (a\<lparr>automaton_type := ''non-deterministic''\<rparr>))"
  using validate_not_FSAType [OF assms] validate_type_irrelevant [OF assms] assms
  by (simp add: convert_def convert_automaton_def construct_type_irrelevant check7_def)

theorem type_token_is_not_validated_witness:
  "automaton_type misspelled_type \<noteq> ''deterministic'' \<and>
   validate 1000 misspelled_type = Inr () \<and>
   validate 1000 (misspelled_type\<lparr>automaton_type := ''non-deterministic''\<rparr>) = Inr () \<and>
   validate 1000 (misspelled_type\<lparr>automaton_type := ''deterministic''\<rparr>) = Inl InvalidFSATypeException"
proof -
  have t: "automaton_type misspelled_type \<noteq> ''deterministic''"
    by (simp add: misspelled_type_def)
  have v: "validate 1000 (misspelled_type\<lparr>automaton_type := ''non-deterministic''\<rparr>) = Inr ()"
    by code_simp
  have d: "validate 1000 (misspelled_type\<lparr>automaton_type := ''deterministic''\<rparr>) = Inl InvalidFSATypeException"
    by code_simp
  from type_token_is_not_validated [OF t, of 1000] t v d show ?thesis by simp
qed

subsection \<open>Filling a matrix cell by cell\<close>

lemma for_each_append:
  "for_each (xs @ ys) body s = and_then (for_each xs body s) (for_each ys body)"
proof (induction xs arbitrary: s)
  case Nil
  show ?case by simp
next
  case (Cons x xs)
  show ?case
    by (cases "body x s") (simp_all add: Cons.IH)
qed

lemma for_each_map:
  "for_each (map g xs) body s = for_each xs (\<lambda>x. body (g x)) s"
proof (induction xs arbitrary: s)
  case Nil
  show ?case by simp
next
  case (Cons x xs)
  show ?case
    by (cases "body (g x) s") (simp_all add: Cons.IH)
qed

lemma enumerate_as_map: "enumerate 0 xs = map (\<lambda>i. (i, xs ! i)) [0..<length xs]"
  by (rule nth_equalityI) (simp_all add: nth_enumerate_eq)

lemma get_in_range: "i < length xs \<Longrightarrow> get xs i = Inr (xs ! i)"
  by (simp add: get_def)

lemma cell_at_in_range:
  "i < length m \<Longrightarrow> j < length (m ! i) \<Longrightarrow> cell_at m i j = Inr (m ! i ! j)"
  by (simp add: cell_at_def get_in_range)

lemma set_cell_in_range:
  "i < length m \<Longrightarrow> j < length (m ! i) \<Longrightarrow> set_cell m i j v = Inr (m[i := (m ! i)[j := v]])"
  by (simp add: set_cell_def get_in_range)

lemma update_filled:
  assumes "k < length xs"
  shows "(map f [0..<k] @ drop k xs)[k := f k] = map f [0..<Suc k] @ drop (Suc k) xs"
proof -
  from assms have "drop k xs = xs ! k # drop (Suc k) xs"
    by (simp add: Cons_nth_drop_Suc)
  then have "(drop k xs)[0 := f k] = f k # drop (Suc k) xs"
    by simp
  then show ?thesis
    by (simp add: list_update_append)
qed

lemma fill_row:
  assumes body: "\<And>j m. j < n \<Longrightarrow> body j m = set_cell m i j (f j)"
    and i: "i < length m" and row: "length (m ! i) = n"
  shows "k \<le> n \<Longrightarrow> for_each [0..<k] body m = Inr (m[i := map f [0..<k] @ drop k (m ! i)])"
proof (induction k)
  case 0
  show ?case by simp
next
  case (Suc k)
  let ?m' = "m[i := map f [0..<k] @ drop k (m ! i)]"
  from Suc have k: "k < n" and IH: "for_each [0..<k] body m = Inr ?m'" by simp_all
  have len: "length (?m' ! i) = n" using i row k by simp
  have "body k ?m' = set_cell ?m' i k (f k)" by (rule body [OF k])
  also have "\<dots> = Inr (?m'[i := (?m' ! i)[k := f k]])"
    using i len k by (simp add: set_cell_in_range)
  also have "(?m' ! i)[k := f k] = map f [0..<Suc k] @ drop (Suc k) (m ! i)"
    using i row k by (simp add: update_filled del: upt_Suc)
  finally have "body k ?m' = Inr (m[i := map f [0..<Suc k] @ drop (Suc k) (m ! i)])"
    by simp
  then show ?case
    by (simp add: for_each_append IH)
qed

lemma fill_row_full:
  assumes "\<And>j m. j < n \<Longrightarrow> body j m = set_cell m i j (f j)"
    and "i < length m" and "length (m ! i) = n"
  shows "for_each [0..<n] body m = Inr (m[i := map f [0..<n]])"
  using fill_row [OF assms, of n] assms(3) by simp

lemma fill_matrix:
  assumes body: "\<And>i j m. i < n \<Longrightarrow> j < n \<Longrightarrow> body i j m = set_cell m i j (f i j)"
    and m: "square n m"
  shows "k \<le> n \<Longrightarrow>
    for_each [0..<k] (\<lambda>i. for_each [0..<n] (body i)) m
      = Inr (map (\<lambda>i. map (f i) [0..<n]) [0..<k] @ drop k m)"
proof (induction k)
  case 0
  show ?case by simp
next
  case (Suc k)
  let ?m' = "map (\<lambda>i. map (f i) [0..<n]) [0..<k] @ drop k m"
  from Suc have k: "k < n" and IH: "for_each [0..<k] (\<lambda>i. for_each [0..<n] (body i)) m = Inr ?m'"
    by simp_all
  from m have lm: "length m = n" and rows: "\<And>i. i < n \<Longrightarrow> length (m ! i) = n"
    by (simp_all add: square_def)
  have len: "k < length ?m'" using lm k by simp
  have row: "length (?m' ! k) = n" using lm k rows [OF k] by (simp add: nth_append)
  have "for_each [0..<n] (body k) ?m' = Inr (?m'[k := map (f k) [0..<n]])"
    by (rule fill_row_full [OF _ len row]) (rule body [OF k])
  also have "?m'[k := map (f k) [0..<n]] = map (\<lambda>i. map (f i) [0..<n]) [0..<Suc k] @ drop (Suc k) m"
    using update_filled [of k m "\<lambda>i. map (f i) [0..<n]"] lm k by simp
  finally show ?case
    by (simp add: for_each_append IH)
qed

lemma fill_matrix_full:
  assumes "\<And>i j m. i < n \<Longrightarrow> j < n \<Longrightarrow> body i j m = set_cell m i j (f i j)"
    and "square n m"
  shows "for_each [0..<n] (\<lambda>i. for_each [0..<n] (body i)) m
      = Inr (map (\<lambda>i. map (f i) [0..<n]) [0..<n])"
  using fill_matrix [OF assms, of n] assms(2) by (simp add: square_def)

lemma square_fresh: "square n (fresh_matrix n v)"
  by (simp add: square_def fresh_matrix_def)

lemma square_map: "square n (map (\<lambda>i. map (f i) [0..<n]) [0..<n])"
  by (auto simp: square_def)

lemma step_cell_in_range:
  assumes "square n prev" "k < n" "i < n" "j < n"
  shows "step_cell prev k i j = Inr (recurrence prev k i j)"
  using assms by (simp add: square_def step_cell_def recurrence_def cell_at_in_range)

lemma elimination_step_pure:
  assumes prev: "square n prev" and k: "k < n"
  shows "elimination_step n prev k = Inr (pure_step n prev k)"
  unfolding elimination_step_def pure_step_def
  by (rule fill_matrix_full [OF _ square_fresh]) (simp add: step_cell_in_range [OF prev k])

lemma square_pure_step: "square n (pure_step n prev k)"
  unfolding pure_step_def by (rule square_map)

subsection \<open>The base matrix\<close>

lemma for_each_map_fun: "for_each (map g xs) body = for_each xs (\<lambda>x. body (g x))"
  by (rule ext) (rule for_each_map)

lemma unpack_three_fields:
  assumes "length (split CHR ''>'' t) = 3"
  obtains s x d where "unpack t = Inr (s, x, d)"
proof -
  from assms obtain s x d where "split CHR ''>'' t = [s, x, d]"
    by (auto simp: length_Suc_conv numeral_3_eq_3)
  then have "unpack t = Inr (s, x, d)"
    by (simp add: unpack_def)
  then show thesis by (rule that)
qed

lemma symbols_between_Nil: "symbols_between [] s d = []"
  by (simp add: symbols_between_def triples_of_def)

lemma symbols_between_Cons:
  "unpack t = Inr (s', x, d') \<Longrightarrow>
   symbols_between (t # ts) s d = (if s' = s \<and> d' = d then [x] else []) @ symbols_between ts s d"
  by (simp add: symbols_between_def triples_of_def)

lemma collect_symbols:
  assumes "\<forall>t \<in> set ts. length (split CHR ''>'' t) = 3"
  shows "for_each ts
          (\<lambda>transition new.
             and_then (unpack transition) (\<lambda>(s_state, s_transition, d_state).
               Inr (if (s_state, d_state) = (i_state, j_state) then new @ s_transition @ ''|''
                    else new)))
          acc
        = Inr (acc @ concat (map (\<lambda>x. x @ ''|'') (symbols_between ts i_state j_state)))"
  using assms
proof (induction ts arbitrary: acc)
  case Nil
  show ?case by (simp add: symbols_between_Nil)
next
  case (Cons t ts)
  from Cons.prems have "length (split CHR ''>'' t) = 3" by simp
  then obtain s x d where u: "unpack t = Inr (s, x, d)" by (rule unpack_three_fields)
  from Cons.prems have rest: "\<forall>t \<in> set ts. length (split CHR ''>'' t) = 3" by simp
  show ?case
    using Cons.IH [OF rest] by (simp add: u symbols_between_Cons [OF u])
qed

lemma join_snoc: "concat (map (\<lambda>x. x @ sep) xs) @ y = join sep (xs @ [y])"
proof (induction xs)
  case Nil
  show ?case by simp
next
  case (Cons x xs)
  then show ?case by (cases xs) simp_all
qed

lemma join_sep: "xs \<noteq> [] \<Longrightarrow> concat (map (\<lambda>x. x @ sep) xs) = join sep xs @ sep"
  by (induction sep xs rule: join.induct) simp_all

lemma new_regular_expression_value:
  assumes tf: "three_fields a" and d: "distinct (states a)"
    and i: "i < length (states a)" and j: "j < length (states a)"
  shows "new_regular_expression a (states a ! i) (states a ! j) = Inr (base_cell a i j)"
proof -
  let ?syms = "symbols_between (transitions a) (states a ! i) (states a ! j)"
  let ?body = "concat (map (\<lambda>x. x @ ''|'') ?syms)"
  from tf have "\<forall>t \<in> set (transitions a). length (split CHR ''>'' t) = 3"
    by (simp add: three_fields_def)
  note loop = collect_symbols [OF this, of "states a ! i" "states a ! j" "[]"]
  from d i j have eq: "states a ! i = states a ! j \<longleftrightarrow> i = j"
    by (simp add: nth_eq_iff_index_eq)
  show ?thesis
  proof (cases "i = j")
    case True
    have "?body @ epsilon = join ''|'' (?syms @ [epsilon])" by (rule join_snoc)
    then show ?thesis
      unfolding new_regular_expression_def loop
      using True by (simp add: base_cell_def alternatives_def epsilon_def)
  next
    case False
    show ?thesis
    proof (cases "?syms = []")
      case True
      then show ?thesis
        unfolding new_regular_expression_def loop
        using False eq by (simp add: base_cell_def alternatives_def empty_set_def)
    next
      case nonempty: False
      then have b: "?body = join ''|'' ?syms @ ''|''" by (rule join_sep)
      have "?body \<noteq> []" unfolding b by simp
      moreover have "last ?body = CHR ''|''" unfolding b by simp
      moreover have "butlast ?body = join ''|'' ?syms" unfolding b by (simp add: butlast_append)
      ultimately show ?thesis
        unfolding new_regular_expression_def loop
        using False eq nonempty by (simp add: base_cell_def alternatives_def Let_def)
    qed
  qed
qed

lemma buildInitialRegExp_value:
  assumes tf: "three_fields a" and d: "distinct (states a)"
  shows "buildInitialRegExp a = Inr (base_matrix a)"
proof -
  let ?n = "length (states a)"
  let ?body = "\<lambda>i j m. and_then (new_regular_expression a (states a ! i) (states a ! j))
                           (\<lambda>new. set_cell m i j (Text new))"
  have "buildInitialRegExp a =
        for_each [0..<?n] (\<lambda>i. for_each [0..<?n] (?body i)) (fresh_matrix ?n (Text []))"
    by (simp add: buildInitialRegExp_def enumerate_as_map for_each_map_fun)
  also have "\<dots> = Inr (map (\<lambda>i. map (\<lambda>j. Text (base_cell a i j)) [0..<?n]) [0..<?n])"
    by (rule fill_matrix_full [OF _ square_fresh])
       (simp add: new_regular_expression_value [OF tf d])
  finally show ?thesis by (simp add: base_matrix_def)
qed

lemma sorted_set_distinct: "distinct (sorted_set xs) \<and> sorted (sorted_set xs)"
  by (simp add: sorted_set_def)

lemma extract_file_states:
  "extract_file file = Inr a \<Longrightarrow> distinct (states a) \<and> sorted (states a)"
  by (auto simp: extract_file_def sorted_set_distinct split: option.splits)

lemma join_last:
  "xs \<noteq> [] \<Longrightarrow> last xs \<noteq> [] \<Longrightarrow> join sep xs \<noteq> [] \<and> last (join sep xs) = last (last xs)"
  by (induction sep xs rule: join.induct) simp_all

text \<open>
  Claim C3, as stated: for every automaton, each cell \<open>(i, j)\<close> of the base matrix built
  by \<open>buildInitialRegExp\<close> is the alternation of all symbols \<open>x\<close> such that
  \<open>(states[i], x, states[j])\<close> is a transition, with the epsilon token included when
  \<open>i = j\<close>, with the marker of the empty language as the value of the cell when there is
  no alternative, and with no trailing alternation separator left in any cell.

  The last part fails when the last alternative of a cell is the empty string. The input
  below passes the extraction and the validation; the symbols from \<open>q0\<close> to \<open>q1\<close> are
  \<open>a\<close> and the empty symbol, the loop over the transitions collects \<open>a||\<close>, the one
  character that is trimmed leaves \<open>a|\<close>, the alternation of \<open>a\<close> and the empty symbol,
  and the cell ends with the separator.
\<close>

theorem cell_of_empty_symbol_ends_with_separator:
  "extract_file empty_symbol_file = Inr empty_symbol \<and>
   validate 1000 empty_symbol = Inr () \<and>
   alternatives empty_symbol 0 1 = [''a'', []] \<and>
   buildInitialRegExp empty_symbol = Inr [[Text ''eps'', Text ''a|''], [Text ''{}'', Text ''eps'']] \<and>
   and_then (buildInitialRegExp empty_symbol) (\<lambda>m. cell_at m 0 1) = Inr (Text ''a|'') \<and>
   last ''a|'' = CHR ''|''"
proof -
  have 1: "extract_file empty_symbol_file = Inr empty_symbol" by code_simp
  have 2: "validate 1000 empty_symbol = Inr ()" by code_simp
  have 3: "alternatives empty_symbol 0 1 = [''a'', []]" by code_simp
  have 4: "buildInitialRegExp empty_symbol = Inr [[Text ''eps'', Text ''a|''], [Text ''{}'', Text ''eps'']]"
    by code_simp
  have 5: "and_then (buildInitialRegExp empty_symbol) (\<lambda>m. cell_at m 0 1) = Inr (Text ''a|'')"
    by code_simp
  have 6: "last ''a|'' = CHR ''|''" by simp
  from 1 2 3 4 5 6 show ?thesis by (simp only: simp_thms)
qed

text \<open>
  Claim C3, amended: for every automaton (its states distinct, as the extraction leaves
  them, and each of its transitions a token of three fields, as in every automaton that
  has passed the validation, \<open>extracted_valid_automaton\<close>), each cell \<open>(i, j)\<close> of the base
  matrix built by \<open>buildInitialRegExp\<close> is the alternation of all symbols \<open>x\<close> such that
  \<open>(states[i], x, states[j])\<close> is a transition, with the epsilon token included when
  \<open>i = j\<close>: the cell is the join of these alternatives by the separator, without a
  separator after the last of them, and it is the marker of the empty language when there
  is no alternative. No trailing separator is left in any cell that has no alternative, or
  whose last alternative is not the empty string and does not end with the separator
  itself; this includes every cell with \<open>i = j\<close>, and every cell whose alternatives are
  not empty and do not end with the separator.
\<close>

theorem base_matrix_cells:
  assumes "three_fields a" and "distinct (states a)"
  shows "buildInitialRegExp a = Inr (base_matrix a) \<and>
         (\<forall>i < length (states a). \<forall>j < length (states a).
            cell_at (base_matrix a) i j = Inr (Text (base_cell a i j)) \<and>
            (alternatives a i j = [] \<longrightarrow> base_cell a i j = empty_set) \<and>
            (alternatives a i j \<noteq> [] \<longrightarrow> base_cell a i j = join ''|'' (alternatives a i j)) \<and>
            (alternatives a i j = [] \<or>
               (last (alternatives a i j) \<noteq> [] \<and> last (last (alternatives a i j)) \<noteq> CHR ''|'') \<longrightarrow>
               base_cell a i j \<noteq> [] \<and> last (base_cell a i j) \<noteq> CHR ''|'') \<and>
            (i = j \<longrightarrow> base_cell a i j \<noteq> [] \<and> last (base_cell a i j) \<noteq> CHR ''|'') \<and>
            ((\<forall>x \<in> set (alternatives a i j). x \<noteq> [] \<and> last x \<noteq> CHR ''|'') \<longrightarrow>
               base_cell a i j \<noteq> [] \<and> last (base_cell a i j) \<noteq> CHR ''|''))"
proof -
  have ends: "base_cell a i j \<noteq> [] \<and> last (base_cell a i j) \<noteq> CHR ''|''"
    if "alternatives a i j = [] \<or>
        (last (alternatives a i j) \<noteq> [] \<and> last (last (alternatives a i j)) \<noteq> CHR ''|'')"
    for i j
    using that join_last [of "alternatives a i j" "''|''"]
    by (cases "alternatives a i j = []") (simp_all add: base_cell_def empty_set_def)
  have diagonal: "base_cell a i i \<noteq> [] \<and> last (base_cell a i i) \<noteq> CHR ''|''" for i
    by (rule ends) (simp add: alternatives_def epsilon_def)
  have symbols: "base_cell a i j \<noteq> [] \<and> last (base_cell a i j) \<noteq> CHR ''|''"
    if "\<forall>x \<in> set (alternatives a i j). x \<noteq> [] \<and> last x \<noteq> CHR ''|''" for i j
  proof (cases "alternatives a i j = []")
    case True
    then show ?thesis by (intro ends) simp
  next
    case False
    then have "last (alternatives a i j) \<in> set (alternatives a i j)" by simp
    with that have "last (alternatives a i j) \<noteq> [] \<and> last (last (alternatives a i j)) \<noteq> CHR ''|''"
      by blast
    then show ?thesis by (intro ends) simp
  qed
  have cells: "cell_at (base_matrix a) i j = Inr (Text (base_cell a i j))"
    if "i < length (states a)" "j < length (states a)" for i j
    using that by (simp add: base_matrix_def cell_at_in_range)
  have none: "alternatives a i j = [] \<longrightarrow> base_cell a i j = empty_set" for i j
    by (simp add: base_cell_def)
  have some: "alternatives a i j \<noteq> [] \<longrightarrow> base_cell a i j = join ''|'' (alternatives a i j)" for i j
    by (simp add: base_cell_def)
  show ?thesis
  proof (intro conjI allI impI)
    show "buildInitialRegExp a = Inr (base_matrix a)"
      using assms by (rule buildInitialRegExp_value)
  next
    fix i j assume "i < length (states a)" "j < length (states a)"
    then show "cell_at (base_matrix a) i j = Inr (Text (base_cell a i j))" by (rule cells)
  next
    fix i j assume "alternatives a i j = []"
    with none show "base_cell a i j = empty_set" by simp
  next
    fix i j assume "alternatives a i j \<noteq> []"
    with some show "base_cell a i j = join ''|'' (alternatives a i j)" by simp
  next
    fix i j
    assume h: "alternatives a i j = [] \<or>
        (last (alternatives a i j) \<noteq> [] \<and> last (last (alternatives a i j)) \<noteq> CHR ''|'')"
    from ends [OF h] show "base_cell a i j \<noteq> []" by simp
    from ends [OF h] show "last (base_cell a i j) \<noteq> CHR ''|''" by simp
  next
    fix i j :: nat assume "i = j"
    with diagonal [of i] show "base_cell a i j \<noteq> []" by simp
    from \<open>i = j\<close> diagonal [of i] show "last (base_cell a i j) \<noteq> CHR ''|''" by simp
  next
    fix i j assume h: "\<forall>x \<in> set (alternatives a i j). x \<noteq> [] \<and> last x \<noteq> CHR ''|''"
    from symbols [OF h] show "base_cell a i j \<noteq> []" by simp
    from symbols [OF h] show "last (base_cell a i j) \<noteq> CHR ''|''" by simp
  qed
qed

theorem base_matrix_cells_witness:
  "three_fields two_symbols \<and> distinct (states two_symbols) \<and>
   length (states two_symbols) = 2 \<and>
   buildInitialRegExp two_symbols = Inr [[Text ''eps'', Text ''a|b''], [Text ''{}'', Text ''a|eps'']] \<and>
   alternatives two_symbols 0 1 = [''a'', ''b''] \<and>
   alternatives two_symbols 1 0 = [] \<and>
   alternatives two_symbols 1 1 = [''a'', ''eps''] \<and>
   cell_at (base_matrix two_symbols) 0 1 = Inr (Text ''a|b'') \<and>
   cell_at (base_matrix two_symbols) 1 0 = Inr (Text ''{}'') \<and>
   cell_at (base_matrix two_symbols) 1 1 = Inr (Text ''a|eps'') \<and>
   last (base_cell two_symbols 0 1) \<noteq> CHR ''|'' \<and>
   last (base_cell two_symbols 1 0) \<noteq> CHR ''|'' \<and>
   last (base_cell two_symbols 1 1) \<noteq> CHR ''|''"
proof -
  have tf: "three_fields two_symbols"
    by (simp add: three_fields_def two_symbols_def)
  have d: "distinct (states two_symbols)"
    by (simp add: two_symbols_def)
  have n: "length (states two_symbols) = 2" by (simp add: two_symbols_def)
  have m: "base_matrix two_symbols = [[Text ''eps'', Text ''a|b''], [Text ''{}'', Text ''a|eps'']]"
    by code_simp
  have 1: "alternatives two_symbols 0 1 = [''a'', ''b'']" by code_simp
  have 2: "alternatives two_symbols 1 0 = []" by code_simp
  have 3: "alternatives two_symbols 1 1 = [''a'', ''eps'']" by code_simp
  note th = base_matrix_cells [OF tf d]
  from th have b: "buildInitialRegExp two_symbols = Inr (base_matrix two_symbols)"
    by (rule conjunct1)
  note c = th [THEN conjunct2, rule_format]
  from c [of 0 1] n 1 have c01: "cell_at (base_matrix two_symbols) 0 1 = Inr (Text ''a|b'')"
    "last (base_cell two_symbols 0 1) \<noteq> CHR ''|''"
    by simp_all
  from c [of 1 0] n 2 have c10: "cell_at (base_matrix two_symbols) 1 0 = Inr (Text ''{}'')"
    "last (base_cell two_symbols 1 0) \<noteq> CHR ''|''"
    by (simp_all add: empty_set_def)
  from c [of 1 1] n 3 have c11: "cell_at (base_matrix two_symbols) 1 1 = Inr (Text ''a|eps'')"
    "last (base_cell two_symbols 1 1) \<noteq> CHR ''|''"
    by simp_all
  from tf d n b m 1 2 3 c01 c10 c11 show ?thesis by simp
qed

subsection \<open>The elimination steps\<close>

lemma for_each_unit:
  "for_each xs (\<lambda>x u. c x) () = Inr () \<Longrightarrow> \<forall>x \<in> set xs. c x = Inr ()"
proof (induction xs)
  case Nil
  show ?case by simp
next
  case (Cons x xs)
  then show ?case by (cases "c x") simp_all
qed

lemma unpack_Inr_fields: "unpack t = Inr tr \<Longrightarrow> length (split CHR ''>'' t) = 3"
  by (auto simp: unpack_def split: list.splits)

lemma check_transitions_three_fields:
  assumes "check_transitions a = Inr ()"
  shows "three_fields a"
  unfolding three_fields_def
proof
  fix t assume "t \<in> set (transitions a)"
  with for_each_unit [OF assms [unfolded check_transitions_def]]
  have "check_transition a t = Inr ()" by simp
  then obtain tr where "unpack t = Inr tr"
    by (auto simp: check_transition_def and_then_eq_Inr)
  then show "length (split CHR ''>'' t) = 3" by (rule unpack_Inr_fields)
qed

lemma validate_Inr:
  assumes "validate limit a = Inr ()"
  shows "length (transitions a) = card (set (transitions a))"
    and "initial_state a \<noteq> []" and "initial_state a \<in> set (states a)"
    and "accepting_states a \<noteq> []"
    and "check_accepting a = Inr ()" and "check_transitions a = Inr ()"
    and "\<exists>g i. build_graph a = Inr (g, i) \<and> isRegular limit g i = Inr True"
  using assms
  by (auto simp: validate_def and_then_eq_Inr split: if_splits)

text \<open>The automata that reach \<open>buildInitialRegExp\<close> have been extracted and validated.\<close>

lemma extracted_valid_automaton:
  assumes "extract_file file = Inr a" and "validate limit a = Inr ()"
  shows "three_fields a \<and> distinct (states a)"
proof
  from assms(2) show "three_fields a"
    by (intro check_transitions_three_fields validate_Inr)
  from assms(1) show "distinct (states a)"
    by (simp add: extract_file_states)
qed

lemma new_regular_expression_succeeds:
  assumes "three_fields a"
  shows "\<exists>v. new_regular_expression a s d = Inr v"
proof -
  from assms have "\<forall>t \<in> set (transitions a). length (split CHR ''>'' t) = 3"
    by (simp add: three_fields_def)
  note loop = collect_symbols [OF this, of s d "[]"]
  show ?thesis
    unfolding new_regular_expression_def loop
    by (simp add: Let_def empty_set_def)
qed

lemma buildInitialRegExp_square:
  assumes tf: "three_fields a"
  shows "\<exists>m. buildInitialRegExp a = Inr m \<and> square (length (states a)) m"
proof -
  let ?n = "length (states a)"
  let ?body = "\<lambda>i j m. and_then (new_regular_expression a (states a ! i) (states a ! j))
                           (\<lambda>new. set_cell m i j (Text new))"
  from new_regular_expression_succeeds [OF tf]
  obtain f where f: "\<And>s d. new_regular_expression a s d = Inr (f s d)"
    by metis
  have "buildInitialRegExp a =
        for_each [0..<?n] (\<lambda>i. for_each [0..<?n] (?body i)) (fresh_matrix ?n (Text []))"
    by (simp add: buildInitialRegExp_def enumerate_as_map for_each_map_fun)
  also have "\<dots> = Inr (map (\<lambda>i. map (\<lambda>j. Text (f (states a ! i) (states a ! j))) [0..<?n]) [0..<?n])"
    by (rule fill_matrix_full [OF _ square_fresh]) (simp add: f)
  finally show ?thesis
    using square_map [of ?n "\<lambda>i j. Text (f (states a ! i) (states a ! j))"] by simp
qed

lemma for_each_single: "for_each [x] body = body x"
proof
  fix s show "for_each [x] body s = body x s"
    by (cases "body x s") simp_all
qed

lemma matrix_after_Suc:
  "matrix_after a (Suc k) =
     and_then (matrix_after a k) (\<lambda>prev. elimination_step (length (states a)) prev k)"
  by (cases "buildInitialRegExp a") (simp_all add: matrix_after_def for_each_append for_each_single)

lemma matrix_after_square:
  assumes tf: "three_fields a"
  shows "k \<le> length (states a) \<Longrightarrow> \<exists>m. matrix_after a k = Inr m \<and> square (length (states a)) m"
proof (induction k)
  case 0
  from buildInitialRegExp_square [OF tf] show ?case
    by (auto simp: matrix_after_def)
next
  case (Suc k)
  then obtain prev where prev: "matrix_after a k = Inr prev" "square (length (states a)) prev"
    by auto
  from Suc.prems have k: "k < length (states a)" by simp
  show ?case
    using prev elimination_step_pure [OF prev(2) k] square_pure_step
    by (simp add: matrix_after_Suc)
qed

lemma matrix_after_final: "matrix_after a (length (states a)) = final_matrix a"
  by (simp add: matrix_after_def final_matrix_def eliminate_all_def)

text \<open>
  Claim C4: for every valid automaton and every elimination step \<open>k\<close> from \<open>0\<close> to
  \<open>n - 1\<close>, the matrix computed by step \<open>k\<close> of \<open>convert\<close> is a function of the completed
  matrix \<open>prev\<close> of the step before alone: each cell \<open>(i, j)\<close> is the recurrence
  \<open>(prev[i][k])(prev[k][k])*(prev[k][j])|(prev[i][j])\<close>, so the loops that fill the fresh
  matrix cell by cell give the matrix \<open>pure_step\<close> whose cells are all computed from
  \<open>prev\<close>, and no cell reads a value of the step in progress.
\<close>

theorem elimination_step_reads_previous_matrix_only:
  assumes "validate limit a = Inr ()" and "k < length (states a)"
  shows "\<exists>prev. matrix_after a k = Inr prev \<and>
           elimination_step (length (states a)) prev k = Inr (pure_step (length (states a)) prev k) \<and>
           matrix_after a (Suc k) = Inr (pure_step (length (states a)) prev k)"
proof -
  from assms(1) have "three_fields a"
    by (intro check_transitions_three_fields validate_Inr)
  from matrix_after_square [OF this, of k] assms(2)
  obtain prev where prev: "matrix_after a k = Inr prev" "square (length (states a)) prev"
    by auto
  from elimination_step_pure [OF prev(2) assms(2)] prev(1) show ?thesis
    by (simp add: matrix_after_Suc)
qed

theorem elimination_step_reads_previous_matrix_only_witness:
  "validate 1000 two_symbols = Inr () \<and> (1::nat) < length (states two_symbols) \<and>
   matrix_after two_symbols 1 =
     Inr [[Text ''(eps)(eps)*(eps)|(eps)'', Text ''(eps)(eps)*(a|b)|(a|b)''],
          [Text ''({})(eps)*(eps)|({})'', Text ''({})(eps)*(a|b)|(a|eps)'']] \<and>
   matrix_after two_symbols (Suc 1) =
     Inr (pure_step 2 [[Text ''(eps)(eps)*(eps)|(eps)'', Text ''(eps)(eps)*(a|b)|(a|b)''],
          [Text ''({})(eps)*(eps)|({})'', Text ''({})(eps)*(a|b)|(a|eps)'']] 1) \<and>
   final_matrix two_symbols = matrix_after two_symbols (Suc 1)"
proof -
  have v: "validate 1000 two_symbols = Inr ()" by code_simp
  have k: "1 < length (states two_symbols)" by (simp add: two_symbols_def)
  have n: "length (states two_symbols) = 2" by (simp add: two_symbols_def)
  have m: "matrix_after two_symbols 1 =
     Inr [[Text ''(eps)(eps)*(eps)|(eps)'', Text ''(eps)(eps)*(a|b)|(a|b)''],
          [Text ''({})(eps)*(eps)|({})'', Text ''({})(eps)*(a|b)|(a|eps)'']]"
    by code_simp
  have "Suc 1 = length (states two_symbols)" by (simp add: n)
  then have f: "final_matrix two_symbols = matrix_after two_symbols (Suc 1)"
    by (simp only: matrix_after_final)
  from elimination_step_reads_previous_matrix_only [OF v k] v k m f show ?thesis
    by (simp add: n)
qed

subsection \<open>The checks of the validation, one by one\<close>

lemma length_card_distinct: "length xs \<noteq> card (set xs) \<longleftrightarrow> \<not> distinct xs"
  using distinct_card [of xs] card_distinct [of xs] by auto

lemma for_each_find:
  "for_each xs (\<lambda>x u. if P x then Inl (E x) else Inr u) () =
     (case find P xs of None \<Rightarrow> Inr () | Some x \<Rightarrow> Inl (E x))"
  by (induction xs) simp_all

lemma for_each_find_check:
  "for_each xs (\<lambda>x u. c x) () =
     (case find (\<lambda>x. c x \<noteq> Inr ()) xs of None \<Rightarrow> Inr () | Some x \<Rightarrow> c x)"
proof (induction xs)
  case Nil
  show ?case by simp
next
  case (Cons x xs)
  show ?case
  proof (cases "c x")
    case (Inl e)
    then show ?thesis by simp
  next
    case (Inr u)
    then show ?thesis by (simp add: Cons.IH)
  qed
qed

lemma check_accepting_check4:
  "check_accepting a = (case check4 a of None \<Rightarrow> Inr () | Some e \<Rightarrow> Inl e)"
  by (simp add: check_accepting_def check4_def for_each_find split: option.splits)

lemma check_transitions_check5:
  "check_transitions a = (case check5 a of None \<Rightarrow> Inr () | Some e \<Rightarrow> Inl e)"
proof (cases "find (\<lambda>t. check_transition a t \<noteq> Inr ()) (transitions a)")
  case None
  then show ?thesis
    by (simp add: check_transitions_def check5_def for_each_find_check)
next
  case (Some t)
  then have "check_transition a t \<noteq> Inr ()"
    by (auto simp: find_Some_iff)
  then obtain e where "check_transition a t = Inl e"
    by (cases "check_transition a t") auto
  with Some show ?thesis
    by (simp add: check_transitions_def check5_def for_each_find_check)
qed

lemma triples_of_Nil: "triples_of [] = []"
  by (simp add: triples_of_def)

lemma triples_of_append: "triples_of (ps @ ts) = triples_of ps @ triples_of ts"
  by (simp add: triples_of_def)

lemma triples_of_single: "unpack t = Inr tr \<Longrightarrow> triples_of [t] = [tr]"
  by (simp add: triples_of_def)

lemma sources_of_snoc:
  "unpack t = Inr (s, x, d) \<Longrightarrow> sources_of (ps @ [t]) = sources_of ps @ [s]"
  by (simp add: sources_of_def triples_of_append triples_of_single)

lemma outgoing_of_snoc:
  "unpack t = Inr (s, x, d) \<Longrightarrow>
   outgoing_of (ps @ [t]) k = outgoing_of ps k @ (if k = s then [x] else [])"
  by (simp add: outgoing_of_def triples_of_append triples_of_single)

lemma outgoing_of_no_source: "k \<notin> set (sources_of ps) \<Longrightarrow> outgoing_of ps k = []"
  by (force simp: outgoing_of_def sources_of_def filter_empty_conv)

lemma mentioned_of_snoc:
  "unpack t = Inr (s, x, d) \<Longrightarrow> mentioned_of (ps @ [t]) = mentioned_of ps @ [s, d]"
  by (simp add: mentioned_of_def triples_of_append triples_of_single)

lemma map_of_map_keyed:
  "map_of (map (\<lambda>(k, v). (k, f k v)) d) k = map_option (f k) (map_of d k)"
  by (induction d) auto

lemma dict_append_keys_new:
  "map_of d s = None \<Longrightarrow> map fst (dict_append d s x) = map fst d @ [s]"
  by (simp add: dict_append_def)

lemma dict_append_keys_old:
  "map_of d s = Some vs \<Longrightarrow> map fst (dict_append d s x) = map fst d"
  by (simp add: dict_append_def case_prod_beta comp_def)

lemma dict_append_lookup:
  "map_of (dict_append d s x) k =
     (if k = s then Some ((case map_of d s of None \<Rightarrow> [] | Some vs \<Rightarrow> vs) @ [x]) else map_of d k)"
proof (cases "map_of d s")
  case None
  then show ?thesis
    by (auto simp: dict_append_def map_add_def split: option.splits)
next
  case (Some vs)
  have "dict_append d s x = map (\<lambda>(k', vs'). (k', if k' = s then vs' @ [x] else vs')) d"
    using Some by (simp add: dict_append_def case_prod_beta)
  then show ?thesis
    using Some by (cases "map_of d k") (auto simp: map_of_map_keyed)
qed

lemma dict_append_grouped:
  assumes dist: "distinct (map fst d)"
    and look: "\<And>k. map_of d k = (if k \<in> set (sources_of ps) then Some (outgoing_of ps k) else None)"
    and u: "unpack t = Inr (s, x, dd)"
  shows "distinct (map fst (dict_append d s x))"
    and "map_of (dict_append d s x) k =
           (if k \<in> set (sources_of (ps @ [t])) then Some (outgoing_of (ps @ [t]) k) else None)"
proof -
  show "distinct (map fst (dict_append d s x))"
  proof (cases "map_of d s")
    case None
    then have "s \<notin> set (map fst d)" by (simp add: map_of_eq_None_iff)
    with dist None show ?thesis by (simp add: dict_append_keys_new)
  next
    case (Some vs)
    with dist show ?thesis by (simp add: dict_append_keys_old)
  qed
  show "map_of (dict_append d s x) k =
           (if k \<in> set (sources_of (ps @ [t])) then Some (outgoing_of (ps @ [t]) k) else None)"
    by (simp add: dict_append_lookup look sources_of_snoc [OF u] outgoing_of_snoc [OF u]
        outgoing_of_no_source)
qed

lemma group_from_grouped:
  assumes "\<forall>t \<in> set ts. length (split CHR ''>'' t) = 3"
    and "distinct (map fst d)"
    and "\<And>k. map_of d k = (if k \<in> set (sources_of ps) then Some (outgoing_of ps k) else None)"
  shows "\<exists>d'. group_from ts d = Inr d' \<and> distinct (map fst d') \<and>
           (\<forall>k. map_of d' k =
              (if k \<in> set (sources_of (ps @ ts)) then Some (outgoing_of (ps @ ts) k) else None))"
  using assms
proof (induction ts arbitrary: d ps)
  case Nil
  then show ?case by (simp add: group_from_def)
next
  case (Cons t ts)
  from Cons.prems(1) have "length (split CHR ''>'' t) = 3" by simp
  then obtain s x dd where u: "unpack t = Inr (s, x, dd)" by (rule unpack_three_fields)
  from Cons.prems(1) have rest: "\<forall>t \<in> set ts. length (split CHR ''>'' t) = 3" by simp
  note step = dict_append_grouped [OF Cons.prems(2) Cons.prems(3) u]
  from Cons.IH [OF rest step(1) step(2)]
  obtain d' where d': "group_from ts (dict_append d s x) = Inr d'" "distinct (map fst d')"
    "\<forall>k. map_of d' k =
        (if k \<in> set (sources_of ((ps @ [t]) @ ts)) then Some (outgoing_of ((ps @ [t]) @ ts) k) else None)"
    by blast
  have "group_from (t # ts) d = group_from ts (dict_append d s x)"
    by (simp add: group_from_def u)
  with d' show ?case by simp
qed

lemma state_transitions_grouped:
  assumes "three_fields a"
  shows "\<exists>d. state_transitions a = Inr d \<and>
           (list_ex (\<lambda>(s_state, transitions). card (set transitions) \<noteq> length transitions) d
            \<longleftrightarrow> list_ex (\<lambda>s. \<not> distinct (outgoing a s)) (sources_of (transitions a)))"
proof -
  from assms have tf: "\<forall>t \<in> set (transitions a). length (split CHR ''>'' t) = 3"
    by (simp add: three_fields_def)
  have "\<And>k. map_of [] k = (if k \<in> set (sources_of []) then Some (outgoing_of [] k) else None)"
    by (simp add: sources_of_def triples_of_Nil)
  from group_from_grouped [OF tf _ this]
  obtain d where d: "group_from (transitions a) [] = Inr d" "distinct (map fst d)"
    and look: "\<And>k. map_of d k = (if k \<in> set (sources_of (transitions a))
                                   then Some (outgoing_of (transitions a) k) else None)"
    by auto
  have "list_ex (\<lambda>(s_state, transitions). card (set transitions) \<noteq> length transitions) d
        \<longleftrightarrow> list_ex (\<lambda>s. \<not> distinct (outgoing a s)) (sources_of (transitions a))"
  proof
    assume "list_ex (\<lambda>(s_state, transitions). card (set transitions) \<noteq> length transitions) d"
    then obtain k vs where kv: "(k, vs) \<in> set d" and c: "card (set vs) \<noteq> length vs"
      by (auto simp: list_ex_iff)
    from kv d(2) have "map_of d k = Some vs" by simp
    with look [of k] have "k \<in> set (sources_of (transitions a))" "vs = outgoing a k"
      by (auto simp: outgoing_def split: if_splits)
    moreover from c have "\<not> distinct vs" using distinct_card [of vs] by auto
    ultimately show "list_ex (\<lambda>s. \<not> distinct (outgoing a s)) (sources_of (transitions a))"
      by (auto simp: list_ex_iff)
  next
    assume "list_ex (\<lambda>s. \<not> distinct (outgoing a s)) (sources_of (transitions a))"
    then obtain k where k: "k \<in> set (sources_of (transitions a))" and nd: "\<not> distinct (outgoing a k)"
      by (auto simp: list_ex_iff)
    from look [of k] k have "map_of d k = Some (outgoing a k)" by (simp add: outgoing_def)
    then have "(k, outgoing a k) \<in> set d" by (rule map_of_SomeD)
    moreover from nd have "card (set (outgoing a k)) \<noteq> length (outgoing a k)"
      using card_distinct [of "outgoing a k"] by auto
    ultimately show "list_ex (\<lambda>(s_state, transitions). card (set transitions) \<noteq> length transitions) d"
      by (auto simp: list_ex_iff)
  qed
  with d(1) show ?thesis
    by (auto simp: state_transitions_def group_from_def)
qed

lemma labels_addNode:
  "labels (addNode g l) = (if l \<in> set (labels g) then labels g else labels g @ [l])"
  by (simp add: labels_def addNode_def Node_def)

lemma visited_addNode: "visited (addNode g l) = visited g"
  by (auto simp: visited_def addNode_def Node_def)

lemma number_of_states_addNode: "number_of_states (addNode g l) = number_of_states g"
  by (simp add: addNode_def)

lemma closed_graph_addNode: "closed_graph g \<Longrightarrow> closed_graph (addNode g l)"
  by (auto simp: closed_graph_def labels_def addNode_def Node_def)

lemma labels_addEdge: "labels (addEdge g s d) = labels g"
  by (simp add: labels_def addEdge_def comp_def)

lemma visited_map:
  assumes l: "\<And>n. label (f n) = label n" and v: "\<And>n. is_visited (f n) = is_visited n"
  shows "visited (g\<lparr> node_list := map f (node_list g) \<rparr>) = visited g"
proof (rule set_eqI, rule iffI)
  fix x assume "x \<in> visited (g\<lparr> node_list := map f (node_list g) \<rparr>)"
  then obtain m where "m \<in> set (node_list g)" "is_visited (f m)" "x = label (f m)"
    by (auto simp: visited_def)
  then have "m \<in> {n \<in> set (node_list g). is_visited n}" "x = label m"
    by (simp_all add: l v)
  then show "x \<in> visited g"
    unfolding visited_def by (rule image_eqI [rotated])
next
  fix x assume "x \<in> visited g"
  then obtain m where m: "m \<in> set (node_list g)" "is_visited m" "x = label m"
    by (auto simp: visited_def)
  then have "f m \<in> {n \<in> set (node_list (g\<lparr> node_list := map f (node_list g) \<rparr>)). is_visited n}"
    "x = label (f m)"
    by (simp_all add: l v)
  then show "x \<in> visited (g\<lparr> node_list := map f (node_list g) \<rparr>)"
    unfolding visited_def by (rule image_eqI [rotated])
qed

lemma visited_addEdge: "visited (addEdge g s d) = visited g"
  unfolding addEdge_def by (rule visited_map) simp_all

lemma number_of_states_addEdge: "number_of_states (addEdge g s d) = number_of_states g"
  by (simp add: addEdge_def)

lemma closed_graph_addEdge:
  assumes "closed_graph g" and "d \<in> set (labels g)"
  shows "closed_graph (addEdge g s d)"
  unfolding closed_graph_def labels_addEdge
proof (intro conjI ballI)
  show "distinct (labels g)" using assms(1) by (simp add: closed_graph_def)
next
  fix n assume "n \<in> set (node_list (addEdge g s d))"
  then obtain m where m: "m \<in> set (node_list g)"
    and n: "n = (if label m = s \<and> d \<notin> set (adjacent_nodes m)
                 then m\<lparr> adjacent_nodes := adjacent_nodes m @ [d] \<rparr> else m)"
    by (auto simp: addEdge_def)
  from assms(1) m have "set (adjacent_nodes m) \<subseteq> set (labels g)"
    by (simp add: closed_graph_def)
  with assms(2) show "set (adjacent_nodes n) \<subseteq> set (labels g)"
    by (simp add: n)
qed

lemma build_from_invariant:
  assumes "\<forall>t \<in> set ts. length (split CHR ''>'' t) = 3"
    and "closed_graph g" and "visited g = {}"
    and "set (labels g) = set (mentioned_of ps)"
    and "init = (if initial \<in> set (mentioned_of ps) then Some initial else None)"
  shows "\<exists>g'. build_from initial ts (g, init)
               = Inr (g', if initial \<in> set (mentioned_of (ps @ ts)) then Some initial else None) \<and>
           closed_graph g' \<and> visited g' = {} \<and>
           set (labels g') = set (mentioned_of (ps @ ts)) \<and>
           number_of_states g' = number_of_states g"
  using assms
proof (induction ts arbitrary: g init ps)
  case Nil
  then show ?case by (simp add: build_from_def)
next
  case (Cons t ts)
  from Cons.prems(1) have "length (split CHR ''>'' t) = 3" by simp
  then obtain s x d where u: "unpack t = Inr (s, x, d)" by (rule unpack_three_fields)
  from Cons.prems(1) have rest: "\<forall>t \<in> set ts. length (split CHR ''>'' t) = 3" by simp
  let ?g = "addEdge (addNode (addNode g s) d) s d"
  let ?init = "if d = initial then Some d else if s = initial then Some s else init"
  have step: "build_from initial (t # ts) (g, init) = build_from initial ts (?g, ?init)"
    by (simp add: build_from_def u Let_def)
  have c: "closed_graph ?g"
    using Cons.prems(2)
    by (intro closed_graph_addEdge closed_graph_addNode) (simp_all add: labels_addNode)
  have v: "visited ?g = {}"
    using Cons.prems(3) by (simp add: visited_addEdge visited_addNode)
  have l: "set (labels ?g) = set (mentioned_of (ps @ [t]))"
    using Cons.prems(4) by (auto simp: labels_addEdge labels_addNode mentioned_of_snoc [OF u])
  have i: "?init = (if initial \<in> set (mentioned_of (ps @ [t])) then Some initial else None)"
    using Cons.prems(5) by (auto simp: mentioned_of_snoc [OF u])
  have n: "number_of_states ?g = number_of_states g"
    by (simp add: number_of_states_addEdge number_of_states_addNode)
  from Cons.IH [OF rest c v l i] show ?case
    by (simp add: step n)
qed

lemma build_graph_invariant:
  assumes "three_fields a"
  shows "\<exists>g. build_graph a
             = Inr (g, if initial_state a \<in> set (mentioned a) then Some (initial_state a) else None) \<and>
           closed_graph g \<and> visited g = {} \<and>
           set (labels g) = set (mentioned a) \<and>
           number_of_states g = length (states a)"
proof -
  from assms have tf: "\<forall>t \<in> set (transitions a). length (split CHR ''>'' t) = 3"
    by (simp add: three_fields_def)
  have e: "mentioned_of [] = []" by (simp add: mentioned_of_def triples_of_Nil)
  have "closed_graph (Graph (length (states a)))" "visited (Graph (length (states a))) = {}"
    "set (labels (Graph (length (states a)))) = set (mentioned_of [])"
    "None = (if initial_state a \<in> set (mentioned_of []) then Some (initial_state a) else None)"
    by (simp_all add: closed_graph_def visited_def labels_def Graph_def e)
  from build_from_invariant [OF tf this]
  show ?thesis
    by (simp add: build_graph_def build_from_def mentioned_def Graph_def)
qed

lemma check5_three_fields:
  assumes "check5 a = None"
  shows "three_fields a"
proof -
  from assms have "check_transitions a = Inr ()"
    by (simp add: check_transitions_check5)
  then show ?thesis by (rule check_transitions_three_fields)
qed

lemma isRegular_reached:
  "isRegular limit g init =
     (case reached_nodes limit g init of
        Some nn \<Rightarrow> Inr (length nn = number_of_states g)
      | None \<Rightarrow> Inl RecursionError)"
  by (simp add: isRegular_def)

lemma validate_first_failure: "validate limit a = validate_in_order limit a"
proof (cases "check1 a = None \<and> check2 a = None \<and> check3 a = None \<and> check4 a = None
              \<and> check5 a = None")
  case False
  then show ?thesis
    by (auto simp: validate_def validate_in_order_def length_card_distinct
        check_accepting_check4 check_transitions_check5 check1_def check2_def check3_def
        split: if_splits option.splits)
next
  case True
  then have c: "check1 a = None" "check2 a = None" "check3 a = None" "check4 a = None"
    "check5 a = None" by simp_all
  from c(5) have tf: "three_fields a" by (rule check5_three_fields)
  from build_graph_invariant [OF tf] obtain g init
    where g: "build_graph a = Inr (g, init)" "number_of_states g = length (states a)"
    by blast
  from state_transitions_grouped [OF tf] obtain d
    where d: "state_transitions a = Inr d"
      "list_ex (\<lambda>(s_state, transitions). card (set transitions) \<noteq> length transitions) d
       \<longleftrightarrow> list_ex (\<lambda>s. \<not> distinct (outgoing a s)) (sources_of (transitions a))"
    by blast
  have 1: "validate limit a =
      and_then (isRegular limit g init) (\<lambda>regular.
        if \<not> regular then Inl DisjointStatesException
        else if automaton_type a = ''deterministic''
        then (if list_ex (\<lambda>(s_state, transitions). card (set transitions) \<noteq> length transitions) d
              then Inl InvalidFSATypeException else Inr ())
        else Inr ())"
    using c by (cases "isRegular limit g init")
      (simp_all add: validate_def length_card_distinct check_accepting_check4
        check_transitions_check5 check1_def check2_def check3_def g d(1) split: if_splits)
  have 2: "validate_in_order limit a = first_failure [check6 limit a, check7 a]"
    using c by (simp add: validate_in_order_def)
  show ?thesis
    unfolding 1 2
    by (cases "reached_nodes limit g init")
       (simp_all add: check6_def check7_def g isRegular_reached d(2))
qed

text \<open>
  Claim C5: validation runs its seven checks in the fixed order 1 to 7 (duplicate
  transitions; initial state empty or not declared; no accepting state; accepting states
  declared; source, destination and symbol of every transition; disjoint states;
  non-determinism), stops at the first check that fails and raises the error of that check
  only, and the construction of the regular expression is not run when a check fails:
  \<open>convert\<close> ends with the error of the validation.
\<close>

theorem validation_stops_at_first_failing_check:
  "validate limit a =
     first_failure [check1 a, check2 a, check3 a, check4 a, check5 a, check6 limit a, check7 a] \<and>
   (\<forall>e. validate limit a = Inl e \<longrightarrow> convert_automaton limit a = Inl e) \<and>
   (\<forall>file e. extract_file file = Inr a \<and> validate limit a = Inl e \<longrightarrow>
      convert limit file = Inl e \<and>
      main limit file = (if is_ConverterException e then \<lparr> stdout = [message e], exit_status = 0 \<rparr>
                   else \<lparr> stdout = [], exit_status = 1 \<rparr>))"
proof (intro conjI)
  show "validate limit a =
     first_failure [check1 a, check2 a, check3 a, check4 a, check5 a, check6 limit a, check7 a]"
    using validate_first_failure [of limit a] by (simp add: validate_in_order_def)
  show "\<forall>e. validate limit a = Inl e \<longrightarrow> convert_automaton limit a = Inl e"
    by (simp add: convert_automaton_def)
  show "\<forall>file e. extract_file file = Inr a \<and> validate limit a = Inl e \<longrightarrow>
      convert limit file = Inl e \<and>
      main limit file = (if is_ConverterException e then \<lparr> stdout = [message e], exit_status = 0 \<rparr>
                   else \<lparr> stdout = [], exit_status = 1 \<rparr>)"
    by (simp add: main_def convert_def convert_automaton_def)
qed

theorem validation_stops_at_first_failing_check_witness:
  "check1 many_failures = Some InputIsMalformedException \<and>
   check2 many_failures = Some InitStateIsNotDefinedException \<and>
   check3 many_failures = Some NoAcceptingStatesException \<and>
   validate 1000 many_failures = Inl InputIsMalformedException \<and>
   convert_automaton 1000 many_failures = Inl InputIsMalformedException \<and>
   check1 unreferenced_state = None \<and> check2 unreferenced_state = None \<and>
   check3 unreferenced_state = None \<and> check4 unreferenced_state = None \<and>
   check5 unreferenced_state = None \<and> check6 1000 unreferenced_state = Some DisjointStatesException \<and>
   validate 1000 unreferenced_state = Inl DisjointStatesException \<and>
   convert_automaton 1000 unreferenced_state = Inl DisjointStatesException"
proof -
  have 1: "check1 many_failures = Some InputIsMalformedException" by code_simp
  have 2: "check2 many_failures = Some InitStateIsNotDefinedException" by code_simp
  have 3: "check3 many_failures = Some NoAcceptingStatesException" by code_simp
  have u: "check1 unreferenced_state = None" "check2 unreferenced_state = None"
    "check3 unreferenced_state = None" "check4 unreferenced_state = None"
    "check5 unreferenced_state = None"
    "check6 1000 unreferenced_state = Some DisjointStatesException"
    by code_simp+
  from validation_stops_at_first_failing_check [of 1000 many_failures] 1
  have a: "validate 1000 many_failures = Inl InputIsMalformedException \<and>
           convert_automaton 1000 many_failures = Inl InputIsMalformedException"
    by simp
  from validation_stops_at_first_failing_check [of 1000 unreferenced_state] u
  have b: "validate 1000 unreferenced_state = Inl DisjointStatesException \<and>
           convert_automaton 1000 unreferenced_state = Inl DisjointStatesException"
    by simp
  from 1 2 3 u a b show ?thesis by simp
qed

subsection \<open>The check for non-determinism\<close>

lemma outgoing_source:
  assumes "\<not> distinct (outgoing a s)"
  shows "s \<in> set (sources_of (transitions a))"
proof (rule ccontr)
  assume "s \<notin> set (sources_of (transitions a))"
  then have "outgoing a s = []"
    unfolding outgoing_def by (rule outgoing_of_no_source)
  with assms show False by simp
qed

lemma check_transition_type_irrelevant:
  "check_transition (a\<lparr>automaton_type := t\<rparr>) = check_transition a"
  by (rule ext) (simp add: check_transition_def cong: if_cong)

lemma build_graph_type_irrelevant:
  "build_graph (a\<lparr>automaton_type := t\<rparr>) = build_graph a"
  by (simp add: build_graph_def)

lemma checks_type_irrelevant:
  "check1 (a\<lparr>automaton_type := t\<rparr>) = check1 a"
  "check2 (a\<lparr>automaton_type := t\<rparr>) = check2 a"
  "check3 (a\<lparr>automaton_type := t\<rparr>) = check3 a"
  "check4 (a\<lparr>automaton_type := t\<rparr>) = check4 a"
  "check5 (a\<lparr>automaton_type := t\<rparr>) = check5 a"
  "check6 limit (a\<lparr>automaton_type := t\<rparr>) = check6 limit a"
  by (simp_all add: check1_def check2_def check3_def check4_def check5_def check6_def
      check_transition_type_irrelevant build_graph_type_irrelevant
      cong: option.case_cong sum.case_cong)

text \<open>
  Claim C7, as stated: for every automaton declared deterministic in which some source
  state has two or more transitions with the same symbol, validation raises
  \<open>InvalidFSATypeException\<close>.

  Validation raises the error of an earlier check when one fails: the automaton below has
  two transitions from \<open>q0\<close> on \<open>a\<close> and is declared deterministic, but its declared state
  \<open>q3\<close> occurs in no transition, and validation raises \<open>DisjointStatesException\<close>.
\<close>

theorem failure_is_DisjointStates_not_InvalidFSAType:
  "extract_file repeated_symbol_and_unreferenced_state_file = Inr repeated_symbol_and_unreferenced_state \<and>
   automaton_type repeated_symbol_and_unreferenced_state = ''deterministic'' \<and>
   outgoing repeated_symbol_and_unreferenced_state ''q0'' = [''a'', ''a''] \<and>
   validate 1000 repeated_symbol_and_unreferenced_state = Inl DisjointStatesException \<and>
   convert 1000 repeated_symbol_and_unreferenced_state_file = Inl DisjointStatesException"
proof -
  have 1: "extract_file repeated_symbol_and_unreferenced_state_file = Inr repeated_symbol_and_unreferenced_state"
    by code_simp
  have 2: "automaton_type repeated_symbol_and_unreferenced_state = ''deterministic''"
    by (simp add: repeated_symbol_and_unreferenced_state_def)
  have 3: "outgoing repeated_symbol_and_unreferenced_state ''q0'' = [''a'', ''a'']" by code_simp
  have 4: "validate 1000 repeated_symbol_and_unreferenced_state = Inl DisjointStatesException" by code_simp
  have 5: "convert 1000 repeated_symbol_and_unreferenced_state_file = Inl DisjointStatesException"
    by (simp add: convert_def convert_automaton_def 1 4)
  from 1 2 3 4 5 show ?thesis by (simp only: simp_thms)
qed

text \<open>
  Claim C7, amended: for every automaton declared deterministic that passes the checks 1
  to 6 and in which some source state \<open>s\<close> has two or more transitions with the same
  symbol (the symbols that leave \<open>s\<close> are not distinct), validation raises
  \<open>InvalidFSATypeException\<close>; the same automaton declared non-deterministic passes this
  check, which is skipped, and passes validation.
\<close>

theorem repeated_symbol_is_rejected_when_deterministic:
  assumes "automaton_type a = ''deterministic''"
    and "check1 a = None" and "check2 a = None" and "check3 a = None"
    and "check4 a = None" and "check5 a = None" and "check6 limit a = None"
    and "\<not> distinct (outgoing a s)"
  shows "validate limit a = Inl InvalidFSATypeException \<and>
         check7 (a\<lparr>automaton_type := ''non-deterministic''\<rparr>) = None \<and>
         validate limit (a\<lparr>automaton_type := ''non-deterministic''\<rparr>) = Inr ()"
proof -
  from assms(8) have "list_ex (\<lambda>s. \<not> distinct (outgoing a s)) (sources_of (transitions a))"
    using outgoing_source [of a s] by (auto simp: list_ex_iff)
  with assms(1) have 7: "check7 a = Some InvalidFSATypeException"
    by (simp add: check7_def)
  have n: "check7 (a\<lparr>automaton_type := ''non-deterministic''\<rparr>) = None"
    by (simp add: check7_def)
  show ?thesis
    using assms(2-7) 7 n
    by (simp add: validate_first_failure validate_in_order_def checks_type_irrelevant)
qed

theorem repeated_symbol_is_rejected_when_deterministic_witness:
  "automaton_type repeated_symbol = ''deterministic'' \<and>
   check1 repeated_symbol = None \<and> check2 repeated_symbol = None \<and>
   check3 repeated_symbol = None \<and> check4 repeated_symbol = None \<and>
   check5 repeated_symbol = None \<and> check6 1000 repeated_symbol = None \<and>
   outgoing repeated_symbol ''q0'' = [''a'', ''a''] \<and>
   validate 1000 repeated_symbol = Inl InvalidFSATypeException \<and>
   validate 1000 (repeated_symbol\<lparr>automaton_type := ''non-deterministic''\<rparr>) = Inr ()"
proof -
  have t: "automaton_type repeated_symbol = ''deterministic''"
    by (simp add: repeated_symbol_def)
  have c: "check1 repeated_symbol = None" "check2 repeated_symbol = None"
    "check3 repeated_symbol = None" "check4 repeated_symbol = None"
    "check5 repeated_symbol = None" "check6 1000 repeated_symbol = None"
    by code_simp+
  have o: "outgoing repeated_symbol ''q0'' = [''a'', ''a'']" by code_simp
  then have nd: "\<not> distinct (outgoing repeated_symbol ''q0'')" by simp
  from repeated_symbol_is_rejected_when_deterministic [OF t c nd] t c o show ?thesis
    by simp
qed

subsection \<open>The depth-first traversal\<close>

lemma label_inj:
  assumes "distinct (labels g)" "m \<in> set (node_list g)" "n \<in> set (node_list g)"
    "label m = label n"
  shows "m = n"
  using assms by (auto simp: labels_def distinct_map inj_on_def)

lemma visited_labels: "visited g \<subseteq> set (labels g)"
  by (auto simp: visited_def labels_def)

lemma isVisited_iff:
  assumes "distinct (labels g)"
  shows "isVisited g l \<longleftrightarrow> l \<in> visited g"
proof (cases "find (\<lambda>n. label n = l) (node_list g)")
  case None
  then have "\<And>n. n \<in> set (node_list g) \<Longrightarrow> label n \<noteq> l"
    by (auto simp: find_None_iff)
  then have "l \<notin> visited g" by (auto simp: visited_def)
  with None show ?thesis by (simp add: isVisited_def)
next
  case (Some n)
  then have n: "n \<in> set (node_list g)" "label n = l"
    by (auto simp: find_Some_iff)
  have "l \<in> visited g \<longleftrightarrow> is_visited n"
  proof
    assume "l \<in> visited g"
    then obtain m where m: "m \<in> set (node_list g)" "is_visited m" "l = label m"
      by (auto simp: visited_def)
    with n have "m = n" using label_inj [OF assms, of m n] by simp
    with m show "is_visited n" by simp
  next
    assume "is_visited n"
    with n show "l \<in> visited g" by (auto simp: visited_def)
  qed
  with Some show ?thesis by (simp add: isVisited_def)
qed

lemma getAdjacentNodes_closed:
  assumes "closed_graph g"
  shows "set (getAdjacentNodes g l) \<subseteq> set (labels g)"
proof (cases "find (\<lambda>n. label n = l) (node_list g)")
  case None
  then show ?thesis by (simp add: getAdjacentNodes_def)
next
  case (Some n)
  then have "n \<in> set (node_list g)" by (auto simp: find_Some_iff)
  with assms have "set (adjacent_nodes n) \<subseteq> set (labels g)"
    by (simp add: closed_graph_def)
  with Some show ?thesis by (simp add: getAdjacentNodes_def)
qed

lemma same_shape_refl: "same_shape g g"
  by (simp add: same_shape_def)

lemma same_shape_trans: "same_shape g g' \<Longrightarrow> same_shape g' g'' \<Longrightarrow> same_shape g g''"
  by (simp add: same_shape_def)

lemma same_shape_labels: "same_shape g g' \<Longrightarrow> labels g' = labels g"
  by (simp add: same_shape_def labels_def)

lemma same_shape_closed:
  assumes "same_shape g g'" and "closed_graph g"
  shows "closed_graph g'"
proof -
  from assms(1) have l: "labels g' = labels g" by (rule same_shape_labels)
  from assms(1) have "set (map adjacent_nodes (node_list g')) = set (map adjacent_nodes (node_list g))"
    by (simp add: same_shape_def)
  then have "adjacent_nodes ` set (node_list g') = adjacent_nodes ` set (node_list g)"
    by simp
  with assms(2) show ?thesis
    unfolding closed_graph_def l by (metis (no_types, lifting) image_iff)
qed

lemma same_shape_setVisited: "same_shape g (setVisited g l)"
  by (simp add: same_shape_def setVisited_def comp_def if_distrib cong: if_cong)

lemma visited_setVisited:
  "visited (setVisited g l) = (if l \<in> set (labels g) then insert l (visited g) else visited g)"
proof (rule set_eqI, rule iffI)
  fix x assume "x \<in> visited (setVisited g l)"
  then obtain m where m: "m \<in> set (node_list g)"
    and v: "is_visited (if label m = l then m\<lparr> is_visited := True \<rparr> else m)"
    and x: "x = label (if label m = l then m\<lparr> is_visited := True \<rparr> else m)"
    by (auto simp: visited_def setVisited_def)
  show "x \<in> (if l \<in> set (labels g) then insert l (visited g) else visited g)"
  proof (cases "label m = l")
    case True
    with m x show ?thesis by (auto simp: labels_def)
  next
    case False
    with m v x have "x \<in> visited g" by (auto simp: visited_def)
    then show ?thesis by simp
  qed
next
  fix x assume a: "x \<in> (if l \<in> set (labels g) then insert l (visited g) else visited g)"
  show "x \<in> visited (setVisited g l)"
  proof (cases "x \<in> visited g")
    case True
    then obtain m where m: "m \<in> set (node_list g)" "is_visited m" "x = label m"
      by (auto simp: visited_def)
    let ?m = "if label m = l then m\<lparr> is_visited := True \<rparr> else m"
    from m have "?m \<in> {n \<in> set (node_list (setVisited g l)). is_visited n}" "x = label ?m"
      by (auto simp: setVisited_def)
    then show ?thesis unfolding visited_def by (rule image_eqI [rotated])
  next
    case False
    with a have "l \<in> set (labels g)" "x = l" by (auto split: if_splits)
    then obtain m where m: "m \<in> set (node_list g)" "label m = l"
      by (auto simp: labels_def)
    let ?m = "m\<lparr> is_visited := True \<rparr>"
    from m have "?m \<in> {n \<in> set (node_list (setVisited g l)). is_visited n}"
      by (force simp: setVisited_def)
    moreover from m \<open>x = l\<close> have "x = label ?m" by simp
    ultimately show ?thesis unfolding visited_def by (rule image_eqI [rotated])
  qed
qed

lemma marks_more_refl: "marks_more g g"
  by (simp add: marks_more_def same_shape_refl)

lemma marks_more_trans: "marks_more g g' \<Longrightarrow> marks_more g' g'' \<Longrightarrow> marks_more g g''"
  by (auto simp: marks_more_def intro: same_shape_trans)

lemma marks_more_unvisited: "marks_more g g' \<Longrightarrow> unvisited g' \<le> unvisited g"
  unfolding unvisited_def marks_more_def
  by (auto simp: same_shape_labels intro!: card_mono)

lemma marks_more_labels: "marks_more g g' \<Longrightarrow> labels g' = labels g"
  by (simp add: marks_more_def same_shape_labels)

lemma visit_step:
  assumes c: "consistent g nn" and n: "n \<in> set (labels g)" and nv: "n \<notin> visited g"
  shows "consistent (setVisited g n) (nn @ [n])"
    and "marks_more g (setVisited g n)"
    and "Suc (unvisited (setVisited g n)) = unvisited g"
proof -
  from c have cl: "closed_graph g" and d: "distinct nn" and s: "set nn = visited g"
    by (simp_all add: consistent_def)
  have v: "visited (setVisited g n) = insert n (visited g)"
    using n by (simp add: visited_setVisited)
  show "consistent (setVisited g n) (nn @ [n])"
    using same_shape_closed [OF same_shape_setVisited cl] d s nv v
    by (simp add: consistent_def)
  show "marks_more g (setVisited g n)"
    using v by (auto simp: marks_more_def same_shape_setVisited)
  have "set (labels g) - visited g = insert n (set (labels g) - insert n (visited g))"
    using n nv by auto
  moreover have "n \<notin> set (labels g) - insert n (visited g)" by simp
  ultimately have "card (set (labels g) - visited g) = Suc (card (set (labels g) - insert n (visited g)))"
    by (metis List.finite_set card_insert_disjoint finite_Diff)
  then show "Suc (unvisited (setVisited g n)) = unvisited g"
    by (simp add: unvisited_def v same_shape_labels [OF same_shape_setVisited])
qed

lemma depthFirstSearch_total:
  "consistent g nn \<Longrightarrow> n \<in> set (labels g) \<Longrightarrow> n \<notin> visited g \<Longrightarrow> unvisited g \<le> depth \<Longrightarrow>
     \<exists>g' nn'. depthFirstSearch depth g n nn = Some (g', nn') \<and> consistent g' nn' \<and> marks_more g g'"
  and dfs_for_total:
  "consistent g nn \<Longrightarrow> set ns \<subseteq> set (labels g) \<Longrightarrow> unvisited g \<le> depth \<Longrightarrow>
     \<exists>g' nn'. dfs_for depth g ns nn = Some (g', nn') \<and> consistent g' nn' \<and> marks_more g g'"
proof (induction depth g n nn and depth g ns nn rule: depthFirstSearch_dfs_for.induct)
  case (1 g n new_nodes)
  from visit_step(3) [OF "1.prems"(1-3)] "1.prems"(4) show ?case by simp
next
  case (2 depth g n new_nodes)
  note step = visit_step [OF "2.prems"(1-3)]
  from "2.prems"(1) have "closed_graph g" by (simp add: consistent_def)
  then have "set (getAdjacentNodes g n) \<subseteq> set (labels (setVisited g n))"
    using getAdjacentNodes_closed [of g n] by (simp add: marks_more_labels [OF step(2)])
  moreover from step(3) "2.prems"(4) have "unvisited (setVisited g n) \<le> depth" by simp
  ultimately obtain g' nn' where
    r: "dfs_for depth (setVisited g n) (getAdjacentNodes g n) (new_nodes @ [n]) = Some (g', nn')"
      "consistent g' nn'" "marks_more (setVisited g n) g'"
    using "2.IH" [OF step(1)] by blast
  from marks_more_trans [OF step(2) r(3)] r(1,2) show ?case by simp
next
  case (3 depth g new_nodes)
  then show ?case by (simp add: marks_more_refl)
next
  case (4 depth g adjacentNode adjacentNodes new_nodes)
  from "4.prems"(1) have d: "distinct (labels g)" by (simp add: consistent_def closed_graph_def)
  from "4.prems"(2) have a: "adjacentNode \<in> set (labels g)"
    and rest: "set adjacentNodes \<subseteq> set (labels g)" by simp_all
  show ?case
  proof (cases "isVisited g adjacentNode")
    case True
    with "4.IH"(3) [OF _ "4.prems"(1) rest "4.prems"(3)] show ?thesis by simp
  next
    case False
    then have nv: "adjacentNode \<notin> visited g" by (simp add: isVisited_iff [OF d])
    from "4.IH"(1) [OF False "4.prems"(1) a nv "4.prems"(3)]
    obtain g1 nn1 where
      r1: "depthFirstSearch depth g adjacentNode new_nodes = Some (g1, nn1)"
        "consistent g1 nn1" "marks_more g g1"
      by blast
    from rest have rest1: "set adjacentNodes \<subseteq> set (labels g1)"
      by (simp add: marks_more_labels [OF r1(3)])
    from marks_more_unvisited [OF r1(3)] "4.prems"(3) have u1: "unvisited g1 \<le> depth" by simp
    from "4.IH"(2) [OF False r1(1) refl r1(2) rest1 u1]
    obtain g2 nn2 where
      r2: "dfs_for depth g1 adjacentNodes nn1 = Some (g2, nn2)"
        "consistent g2 nn2" "marks_more g1 g2"
      by blast
    from marks_more_trans [OF r1(3) r2(3)] r2(1,2) r1(1) False show ?thesis by simp
  qed
qed

text \<open>A traversal that returns under one limit returns the same under every greater limit.\<close>

lemma depthFirstSearch_more_depth:
  "depthFirstSearch depth g n nn = Some r \<Longrightarrow> depthFirstSearch (depth + d) g n nn = Some r"
  and dfs_for_more_depth:
  "dfs_for depth g ns nn = Some r \<Longrightarrow> dfs_for (depth + d) g ns nn = Some r"
proof (induction depth g n nn and depth g ns nn arbitrary: r and r
       rule: depthFirstSearch_dfs_for.induct)
  case (1 g n new_nodes)
  then show ?case by simp
next
  case (2 depth g n new_nodes)
  from "2.IH" [of r] "2.prems" show ?case by simp
next
  case (3 depth g new_nodes)
  then show ?case by simp
next
  case (4 depth g adjacentNode adjacentNodes new_nodes)
  show ?case
  proof (cases "isVisited g adjacentNode")
    case True
    with "4.IH"(3) [of r] "4.prems" show ?thesis by simp
  next
    case False
    with "4.prems" obtain g1 nn1 where
      r1: "depthFirstSearch depth g adjacentNode new_nodes = Some (g1, nn1)"
      and r2: "dfs_for depth g1 adjacentNodes nn1 = Some r"
      by (auto split: option.splits)
    from "4.IH"(1) [OF False r1]
    have "depthFirstSearch (depth + d) g adjacentNode new_nodes = Some (g1, nn1)" .
    moreover from "4.IH"(2) [OF False r1 refl r2]
    have "dfs_for (depth + d) g1 adjacentNodes nn1 = Some r" .
    ultimately show ?thesis using False by simp
  qed
qed

subsection \<open>The connectivity check\<close>

lemma split_nonempty: "split sep s \<noteq> []"
  by (induction s) simp_all

lemma extract_file_transitions:
  "extract_file file = Inr a \<Longrightarrow> transitions a \<noteq> []"
  by (auto simp: extract_file_def split_nonempty split: option.splits)

lemma reached_nodes_fresh:
  "reached_nodes limit g None = (if limit = 0 then None else Some [[]])"
  by (simp add: reached_nodes_def)

text \<open>
  The traversal returns when the limit leaves room for as many nested calls as the graph
  has nodes, and the nodes it collects are nodes of the graph, each once.
\<close>

lemma reached_nodes_bound:
  assumes c: "closed_graph g" and v: "visited g = {}" and l: "l \<in> set (labels g)"
    and b: "length (node_list g) \<le> limit"
  shows "\<exists>nn. reached_nodes limit g (Some l) = Some nn \<and> distinct nn \<and> set nn \<subseteq> set (labels g)"
proof -
  from c v have con: "consistent g []" by (simp add: consistent_def)
  from v have nv: "l \<notin> visited g" by simp
  have "unvisited g \<le> length (labels g)"
    unfolding unvisited_def v by (simp add: card_length)
  with b have "unvisited g \<le> limit"
    by (simp add: labels_def)
  from depthFirstSearch_total [OF con l nv this]
  obtain g' nn where r: "depthFirstSearch limit g l [] = Some (g', nn)"
    "consistent g' nn" "marks_more g g'"
    by blast
  from r(2) have "distinct nn" "set nn = visited g'" by (simp_all add: consistent_def)
  moreover have "visited g' \<subseteq> set (labels g)"
    using visited_labels [of g'] by (simp add: marks_more_labels [OF r(3)])
  ultimately show ?thesis
    using r(1) by (simp add: reached_nodes_def)
qed

lemma reached_nodes_more_depth:
  assumes "reached_nodes limit g init_node = Some nn"
  shows "reached_nodes (limit + d) g init_node = Some nn"
proof (cases init_node)
  case None
  with assms show ?thesis by (simp add: reached_nodes_def split: if_splits)
next
  case (Some l)
  with assms obtain g' where "depthFirstSearch limit g l [] = Some (g', nn)"
    by (auto simp: reached_nodes_def)
  from depthFirstSearch_more_depth [OF this, of d] Some show ?thesis
    by (simp add: reached_nodes_def)
qed

lemma reached_nodes_distinct:
  assumes c: "closed_graph g" and v: "visited g = {}" and l: "l \<in> set (labels g)"
    and r: "reached_nodes limit g (Some l) = Some nn"
  shows "distinct nn \<and> set nn \<subseteq> set (labels g)"
proof -
  have "length (node_list g) \<le> limit + length (node_list g)" by simp
  from reached_nodes_bound [OF c v l this]
  obtain nn' where n: "reached_nodes (limit + length (node_list g)) g (Some l) = Some nn'"
    "distinct nn'" "set nn' \<subseteq> set (labels g)"
    by blast
  from reached_nodes_more_depth [OF r, of "length (node_list g)"] n(1) have "nn' = nn" by simp
  with n(2,3) show ?thesis by simp
qed

lemma triples_of_iff: "tr \<in> set (triples_of ts) \<longleftrightarrow> (\<exists>t \<in> set ts. unpack t = Inr tr)"
proof (induction ts)
  case Nil
  show ?case by (simp add: triples_of_def)
next
  case (Cons t ts)
  have "triples_of (t # ts) = (case unpack t of Inr tr \<Rightarrow> [tr] | Inl e \<Rightarrow> []) @ triples_of ts"
    by (simp add: triples_of_def)
  with Cons show ?case by (cases "unpack t") auto
qed

lemma check5_mentioned:
  assumes "check5 a = None"
  shows "set (mentioned a) \<subseteq> set (states a)"
proof
  fix u assume "u \<in> set (mentioned a)"
  then obtain s x d where "(s, x, d) \<in> set (triples_of (transitions a))" and sd: "u = s \<or> u = d"
    by (auto simp: mentioned_def mentioned_of_def)
  then obtain t where t: "t \<in> set (transitions a)" and u: "unpack t = Inr (s, x, d)"
    by (auto simp: triples_of_iff)
  from assms have "check_transitions a = Inr ()"
    by (simp add: check_transitions_check5)
  from for_each_unit [OF this [unfolded check_transitions_def]] t
  have "check_transition a t = Inr ()" by simp
  with u have "s \<in> set (states a)" "d \<in> set (states a)"
    by (auto simp: check_transition_def split: if_splits)
  with sd show "u \<in> set (states a)" by auto
qed

lemma first_source_mentioned:
  assumes "three_fields a" and "transitions a \<noteq> []"
  shows "\<exists>s. s \<in> set (mentioned a)"
proof -
  from assms(2) obtain t ts where ts: "transitions a = t # ts" by (cases "transitions a") auto
  with assms(1) have "length (split CHR ''>'' t) = 3" by (simp add: three_fields_def)
  then obtain s x d where "unpack t = Inr (s, x, d)" by (rule unpack_three_fields)
  then have "s \<in> set (mentioned a)"
    by (simp add: mentioned_def mentioned_of_def triples_of_def ts)
  then show ?thesis ..
qed

lemma unmentioned_state_count:
  assumes c5: "check5 a = None" and ne: "transitions a \<noteq> []"
    and u: "u \<in> set (states a)" "u \<notin> set (mentioned a)"
    and r: "reached_nodes limit g (if initial_state a \<in> set (mentioned a) then Some (initial_state a) else None)
            = Some nn"
    and g: "closed_graph g" "visited g = {}" "set (labels g) = set (mentioned a)"
  shows "length nn \<noteq> length (states a)"
proof (cases "initial_state a \<in> set (mentioned a)")
  case True
  then have "initial_state a \<in> set (labels g)" by (simp add: g(3))
  moreover from r True have "reached_nodes limit g (Some (initial_state a)) = Some nn" by simp
  ultimately have "distinct nn \<and> set nn \<subseteq> set (labels g)"
    by (rule reached_nodes_distinct [OF g(1,2)])
  then have "distinct nn" "set nn \<subseteq> set (mentioned a)" by (simp_all add: g(3))
  with check5_mentioned [OF c5] u have "set nn \<subseteq> set (states a) - {u}" by auto
  then have "card (set nn) \<le> card (set (states a) - {u})"
    by (intro card_mono) simp_all
  also have "\<dots> < card (set (states a))"
    using u(1) by (intro card_Diff1_less) simp_all
  also have "\<dots> \<le> length (states a)" by (rule card_length)
  finally show ?thesis
    using \<open>distinct nn\<close> by (simp add: distinct_card)
next
  case False
  with r have nn: "length nn = 1" by (auto simp: reached_nodes_fresh split: if_splits)
  from first_source_mentioned [OF check5_three_fields [OF c5] ne]
  obtain s where s: "s \<in> set (mentioned a)" by blast
  with check5_mentioned [OF c5] have "s \<in> set (states a)" by auto
  moreover from s u(2) have "s \<noteq> u" by auto
  ultimately have "{s, u} \<subseteq> set (states a)" "card {s, u} = 2" using u(1) by simp_all
  then have "2 \<le> card (set (states a))"
    by (metis List.finite_set card_mono)
  also have "\<dots> \<le> length (states a)" by (rule card_length)
  finally show ?thesis using nn by simp
qed

lemma traversal_returns:
  assumes c2: "check2 a = None" and c5: "check5 a = None"
    and g: "build_graph a = Inr (graph, init_node)"
    and b: "length (states a) \<le> limit"
  shows "\<exists>new_nodes. reached_nodes limit graph init_node = Some new_nodes"
proof -
  let ?init = "if initial_state a \<in> set (mentioned a) then Some (initial_state a) else None"
  from c5 have tf: "three_fields a" by (rule check5_three_fields)
  from build_graph_invariant [OF tf] g
  have i: "init_node = ?init" and c: "closed_graph graph" and v: "visited graph = {}"
    and l: "set (labels graph) = set (mentioned a)"
    by auto
  from c have "distinct (labels graph)" by (simp add: closed_graph_def)
  then have "card (set (labels graph)) = length (labels graph)" by (rule distinct_card)
  then have "length (node_list graph) = card (set (labels graph))"
    by (simp add: labels_def)
  also have "\<dots> \<le> card (set (states a))"
    unfolding l using check5_mentioned [OF c5] by (intro card_mono) simp_all
  also have "\<dots> \<le> length (states a)" by (rule card_length)
  finally have n: "length (node_list graph) \<le> limit" using b by simp
  show ?thesis
  proof (cases "initial_state a \<in> set (mentioned a)")
    case True
    then have "initial_state a \<in> set (labels graph)" by (simp add: l)
    from reached_nodes_bound [OF c v this n] True i show ?thesis by auto
  next
    case False
    from c2 have "initial_state a \<in> set (states a)"
      by (simp add: check2_def split: if_splits)
    then have "states a \<noteq> []" by auto
    with b have "limit \<noteq> 0" by (cases "states a") auto
    with False i show ?thesis by (simp add: reached_nodes_fresh)
  qed
qed

text \<open>
  Claim C6, as stated: the connectivity check raises \<open>DisjointStatesException\<close> exactly
  when the number of nodes reached by the depth-first traversal from the node of the
  initial state differs from the number of declared states; in particular, for every input
  whose declared states contain a state that no transition mentions, as source or as
  destination, \<open>DisjointStatesException\<close> is raised.

  The second part fails where the count of the graph's nodes says nothing about the
  declared states: in the input below the declared state \<open>q1\<close> occurs in no transition,
  the only transition leads to the undeclared state \<open>q5\<close>, and the program raises
  \<open>InvalidStateException\<close> for \<open>q5\<close> in check 5. The connectivity check on its own would
  pass as well, since two nodes are reached and two states are declared.
\<close>

theorem unreferenced_state_without_DisjointStates:
  "extract_file unreferenced_and_undeclared_file = Inr unreferenced_and_undeclared \<and>
   ''q1'' \<in> set (states unreferenced_and_undeclared) \<and>
   ''q1'' \<notin> set (mentioned unreferenced_and_undeclared) \<and>
   convert 1000 unreferenced_and_undeclared_file = Inl (InvalidStateException ''q5'') \<and>
   and_then (build_graph unreferenced_and_undeclared)
     (\<lambda>(graph, init_node). isRegular 1000 graph init_node) = Inr True"
proof -
  have 1: "extract_file unreferenced_and_undeclared_file = Inr unreferenced_and_undeclared"
    by code_simp
  have 2: "''q1'' \<in> set (states unreferenced_and_undeclared)"
    by (simp add: unreferenced_and_undeclared_def)
  have 3: "mentioned unreferenced_and_undeclared = [''q0'', ''q5'']" by code_simp
  have 4: "convert 1000 unreferenced_and_undeclared_file = Inl (InvalidStateException ''q5'')"
    by code_simp
  have 5: "and_then (build_graph unreferenced_and_undeclared)
             (\<lambda>(graph, init_node). isRegular 1000 graph init_node) = Inr True"
    by code_simp
  from 1 2 3 4 5 show ?thesis by simp
qed

text \<open>
  Claim C6, amended: on every input that passes the checks 1 to 5 and on which the
  depth-first traversal returns, the connectivity check raises \<open>DisjointStatesException\<close>
  exactly when the number of nodes reached by the traversal from the node of the initial
  state differs from the number of declared states; in particular, on every such input
  whose declared states contain a state that no transition mentions,
  \<open>DisjointStatesException\<close> is raised. The traversal returns whenever the recursion limit
  of the interpreter leaves room for as many nested calls as there are declared states.
\<close>

theorem DisjointStates_when_reached_count_differs:
  assumes "extract_file file = Inr a"
    and "check1 a = None" and "check2 a = None" and "check3 a = None"
    and "check4 a = None" and "check5 a = None"
  shows "\<exists>graph init_node.
           build_graph a = Inr (graph, init_node) \<and>
           (length (states a) \<le> limit \<longrightarrow>
              (\<exists>new_nodes. reached_nodes limit graph init_node = Some new_nodes)) \<and>
           (\<forall>new_nodes. reached_nodes limit graph init_node = Some new_nodes \<longrightarrow>
              (validate limit a = Inl DisjointStatesException
                 \<longleftrightarrow> length new_nodes \<noteq> length (states a)) \<and>
              ((\<exists>u \<in> set (states a). u \<notin> set (mentioned a)) \<longrightarrow>
                 validate limit a = Inl DisjointStatesException \<and>
                 convert limit file = Inl DisjointStatesException))"
proof -
  let ?init = "if initial_state a \<in> set (mentioned a) then Some (initial_state a) else None"
  from assms(6) have tf: "three_fields a" by (rule check5_three_fields)
  from build_graph_invariant [OF tf] obtain g
    where g: "build_graph a = Inr (g, ?init)" "closed_graph g" "visited g = {}"
      "set (labels g) = set (mentioned a)"
    by blast
  have returns: "length (states a) \<le> limit \<longrightarrow>
      (\<exists>new_nodes. reached_nodes limit g ?init = Some new_nodes)"
    using traversal_returns [OF assms(3) assms(6) g(1)] by blast
  have v: "validate limit a = first_failure [check6 limit a, check7 a]"
    using assms(2-6) by (simp add: validate_first_failure validate_in_order_def)
  have returned: "\<forall>nn. reached_nodes limit g ?init = Some nn \<longrightarrow>
      (validate limit a = Inl DisjointStatesException \<longleftrightarrow> length nn \<noteq> length (states a)) \<and>
      ((\<exists>u \<in> set (states a). u \<notin> set (mentioned a)) \<longrightarrow>
         validate limit a = Inl DisjointStatesException \<and>
         convert limit file = Inl DisjointStatesException)"
  proof (intro allI impI)
    fix nn assume nn: "reached_nodes limit g ?init = Some nn"
    have 6: "check6 limit a =
        (if length nn \<noteq> length (states a) then Some DisjointStatesException else None)"
      by (simp add: check6_def g(1) nn)
    have iff: "validate limit a = Inl DisjointStatesException \<longleftrightarrow> length nn \<noteq> length (states a)"
      unfolding v 6 by (auto simp: check7_def)
    have part: "(\<exists>u \<in> set (states a). u \<notin> set (mentioned a)) \<longrightarrow>
                validate limit a = Inl DisjointStatesException \<and>
                convert limit file = Inl DisjointStatesException"
    proof
      assume "\<exists>u \<in> set (states a). u \<notin> set (mentioned a)"
      then obtain u where u: "u \<in> set (states a)" "u \<notin> set (mentioned a)" by blast
      from unmentioned_state_count [OF assms(6) extract_file_transitions [OF assms(1)] u nn g(2-4)]
      have "validate limit a = Inl DisjointStatesException" by (simp add: iff)
      then show "validate limit a = Inl DisjointStatesException \<and>
                 convert limit file = Inl DisjointStatesException"
        by (simp add: convert_def convert_automaton_def assms(1))
    qed
    from iff part show
      "(validate limit a = Inl DisjointStatesException \<longleftrightarrow> length nn \<noteq> length (states a)) \<and>
       ((\<exists>u \<in> set (states a). u \<notin> set (mentioned a)) \<longrightarrow>
          validate limit a = Inl DisjointStatesException \<and>
          convert limit file = Inl DisjointStatesException)"
      by (rule conjI)
  qed
  from g(1) returns returned show ?thesis by blast
qed

theorem DisjointStates_when_reached_count_differs_witness:
  "extract_file unreferenced_state_file = Inr unreferenced_state \<and>
   check1 unreferenced_state = None \<and> check2 unreferenced_state = None \<and>
   check3 unreferenced_state = None \<and> check4 unreferenced_state = None \<and>
   check5 unreferenced_state = None \<and>
   length (states unreferenced_state) \<le> 1000 \<and>
   and_then (build_graph unreferenced_state)
     (\<lambda>(graph, init_node). Inr (reached_nodes 1000 graph init_node)) = Inr (Some [''q0'', ''q1'']) \<and>
   ''q2'' \<in> set (states unreferenced_state) \<and> ''q2'' \<notin> set (mentioned unreferenced_state) \<and>
   validate 1000 unreferenced_state = Inl DisjointStatesException \<and>
   convert 1000 unreferenced_state_file = Inl DisjointStatesException"
proof -
  have e: "extract_file unreferenced_state_file = Inr unreferenced_state" by code_simp
  have c: "check1 unreferenced_state = None" "check2 unreferenced_state = None"
    "check3 unreferenced_state = None" "check4 unreferenced_state = None"
    "check5 unreferenced_state = None"
    by code_simp+
  have b: "length (states unreferenced_state) \<le> 1000" by (simp add: unreferenced_state_def)
  have r: "and_then (build_graph unreferenced_state)
     (\<lambda>(graph, init_node). Inr (reached_nodes 1000 graph init_node)) = Inr (Some [''q0'', ''q1''])"
    by code_simp
  have s: "''q2'' \<in> set (states unreferenced_state)" by (simp add: unreferenced_state_def)
  have m: "mentioned unreferenced_state = [''q0'', ''q1'']" by code_simp
  have n: "''q2'' \<notin> set (mentioned unreferenced_state)" unfolding m by simp
  from s n have u: "\<exists>u \<in> set (states unreferenced_state). u \<notin> set (mentioned unreferenced_state)"
    by (rule bexI [rotated])
  have v: "validate 1000 unreferenced_state = Inl DisjointStatesException \<and>
        convert 1000 unreferenced_state_file = Inl DisjointStatesException"
  proof -
    from DisjointStates_when_reached_count_differs [OF e c, of 1000]
    obtain graph init_node where
      g: "build_graph unreferenced_state = Inr (graph, init_node)"
      and returned: "\<forall>new_nodes. reached_nodes 1000 graph init_node = Some new_nodes \<longrightarrow>
          (validate 1000 unreferenced_state = Inl DisjointStatesException
             \<longleftrightarrow> length new_nodes \<noteq> length (states unreferenced_state)) \<and>
          ((\<exists>u \<in> set (states unreferenced_state). u \<notin> set (mentioned unreferenced_state)) \<longrightarrow>
             validate 1000 unreferenced_state = Inl DisjointStatesException \<and>
             convert 1000 unreferenced_state_file = Inl DisjointStatesException)"
      by (elim exE conjE)
    from r g have "reached_nodes 1000 graph init_node = Some [''q0'', ''q1'']" by simp
    moreover from returned have
      "reached_nodes 1000 graph init_node = Some [''q0'', ''q1''] \<longrightarrow>
         (validate 1000 unreferenced_state = Inl DisjointStatesException
            \<longleftrightarrow> length [''q0'', ''q1''] \<noteq> length (states unreferenced_state)) \<and>
         ((\<exists>u \<in> set (states unreferenced_state). u \<notin> set (mentioned unreferenced_state)) \<longrightarrow>
            validate 1000 unreferenced_state = Inl DisjointStatesException \<and>
            convert 1000 unreferenced_state_file = Inl DisjointStatesException)"
      by (rule spec)
    ultimately have
      "(validate 1000 unreferenced_state = Inl DisjointStatesException
            \<longleftrightarrow> length [''q0'', ''q1''] \<noteq> length (states unreferenced_state)) \<and>
       ((\<exists>u \<in> set (states unreferenced_state). u \<notin> set (mentioned unreferenced_state)) \<longrightarrow>
          validate 1000 unreferenced_state = Inl DisjointStatesException \<and>
          convert 1000 unreferenced_state_file = Inl DisjointStatesException)"
      by (rule rev_mp)
    then have
      "(\<exists>u \<in> set (states unreferenced_state). u \<notin> set (mentioned unreferenced_state)) \<longrightarrow>
         validate 1000 unreferenced_state = Inl DisjointStatesException \<and>
         convert 1000 unreferenced_state_file = Inl DisjointStatesException"
      by (rule conjunct2)
    from this u show ?thesis by (rule mp)
  qed
  from e c b r s n v show ?thesis by (simp only: simp_thms)
qed

subsection \<open>An empty list of accepting states\<close>

lemma get_error: "get xs i = Inl e \<Longrightarrow> e = IndexError"
  by (simp add: get_def split: if_splits)

lemma cell_at_error: "cell_at m i j = Inl e \<Longrightarrow> e = IndexError"
  by (auto simp: cell_at_def and_then_eq_Inl dest: get_error)

lemma set_cell_error: "set_cell m i j v = Inl e \<Longrightarrow> e = IndexError"
  by (auto simp: set_cell_def and_then_eq_Inl dest: get_error split: if_splits)

lemma new_regular_expression_error:
  assumes "new_regular_expression a s d = Inl e"
  shows "e = ValueError \<or> e = IndexError"
proof -
  from assms consider
    "for_each (transitions a)
          (\<lambda>transition new.
             and_then (unpack transition) (\<lambda>(s_state, s_transition, d_state).
               Inr (if (s_state, d_state) = (s, d) then new @ s_transition @ ''|''
                    else new)))
          [] = Inl e"
    | "e = IndexError"
    unfolding new_regular_expression_def
    by (auto simp: and_then_eq_Inl Let_def split: if_splits)
  then show ?thesis
  proof cases
    case 1
    from for_each_error [OF this] show ?thesis
      by (auto simp: and_then_eq_Inl dest: unpack_error)
  next
    case 2
    then show ?thesis by simp
  qed
qed

lemma buildInitialRegExp_error:
  assumes "buildInitialRegExp a = Inl e"
  shows "e = ValueError \<or> e = IndexError"
proof -
  from for_each_error [OF assms [unfolded buildInitialRegExp_def]]
  obtain i i_state m where
    "for_each (enumerate 0 (states a))
       (\<lambda>(j, j_state) m.
          and_then (new_regular_expression a i_state j_state) (\<lambda>new. set_cell m i j (Text new)))
       m = Inl e"
    by auto
  from for_each_error [OF this] show ?thesis
    by (auto simp: and_then_eq_Inl dest: new_regular_expression_error set_cell_error)
qed

lemma step_cell_error: "step_cell prev k i j = Inl e \<Longrightarrow> e = IndexError"
  by (auto simp: step_cell_def and_then_eq_Inl dest: cell_at_error)

lemma elimination_step_error:
  assumes "elimination_step n prev k = Inl e"
  shows "e = IndexError"
proof -
  from for_each_error [OF assms [unfolded elimination_step_def]]
  obtain i m where
    "for_each [0..<n]
       (\<lambda>j regular_expression.
          and_then (step_cell prev k i j) (set_cell regular_expression i j)) m = Inl e"
    by auto
  from for_each_error [OF this] show ?thesis
    by (auto simp: and_then_eq_Inl dest: step_cell_error set_cell_error)
qed

lemma eliminate_all_error: "eliminate_all n m = Inl e \<Longrightarrow> e = IndexError"
  unfolding eliminate_all_def
  by (drule for_each_error) (auto dest: elimination_step_error)

lemma collect_answer_error: "collect_answer a m = Inl e \<Longrightarrow> e = IndexError"
  unfolding collect_answer_def
  by (drule for_each_error)
     (auto simp: and_then_eq_Inl dest: get_error cell_at_error split: if_splits)

lemma construct_error:
  assumes "construct a = Inl e"
  shows "e = ValueError \<or> e = IndexError"
  using assms
  by (auto simp: construct_def final_matrix_def and_then_eq_Inl
      dest: buildInitialRegExp_error eliminate_all_error collect_answer_error)

lemma first_failure_error: "first_failure cs = Inl e \<Longrightarrow> Some e \<in> set cs"
  by (induction cs rule: first_failure.induct) simp_all

lemma check_transition_error:
  "check_transition a t = Inl e \<Longrightarrow> e \<noteq> NoAcceptingStatesException"
  by (auto simp: check_transition_def and_then_eq_Inl dest: unpack_error split: if_splits)

lemma validate_NoAcceptingStates:
  assumes "validate limit a = Inl NoAcceptingStatesException"
  shows "accepting_states a = []"
proof -
  from assms have "Some NoAcceptingStatesException
      \<in> set [check1 a, check2 a, check3 a, check4 a, check5 a, check6 limit a, check7 a]"
    by (intro first_failure_error) (simp add: validate_first_failure validate_in_order_def)
  then consider "check1 a = Some NoAcceptingStatesException"
    | "check2 a = Some NoAcceptingStatesException"
    | "check3 a = Some NoAcceptingStatesException"
    | "check4 a = Some NoAcceptingStatesException"
    | "check5 a = Some NoAcceptingStatesException"
    | "check6 limit a = Some NoAcceptingStatesException"
    | "check7 a = Some NoAcceptingStatesException"
    by auto
  then show ?thesis
  proof cases
    case 1 then show ?thesis by (simp add: check1_def split: if_splits)
  next
    case 2 then show ?thesis by (simp add: check2_def split: if_splits)
  next
    case 3 then show ?thesis by (simp add: check3_def split: if_splits)
  next
    case 4 then show ?thesis by (simp add: check4_def split: option.splits)
  next
    case 5 then show ?thesis
      by (auto simp: check5_def split: option.splits sum.splits dest: check_transition_error)
  next
    case 6 then show ?thesis
      by (auto simp: check6_def split: option.splits sum.splits if_splits dest: build_graph_error)
  next
    case 7 then show ?thesis by (simp add: check7_def split: if_splits)
  qed
qed

lemma extract_file_accepting:
  "extract_file file = Inr a \<Longrightarrow> accepting_states a \<noteq> []"
  by (auto simp: extract_file_def split_nonempty split: option.splits)

lemma convert_never_NoAcceptingStates: "convert limit file \<noteq> Inl NoAcceptingStatesException"
proof
  assume c: "convert limit file = Inl NoAcceptingStatesException"
  show False
  proof (cases "extract_file file")
    case (Inl e)
    with c extract_file_error [OF Inl] show False by (simp add: convert_def)
  next
    case (Inr a)
    with c have "validate limit a = Inl NoAcceptingStatesException \<or> construct a = Inl NoAcceptingStatesException"
      by (auto simp: convert_def convert_automaton_def and_then_eq_Inl)
    then show False
    proof
      assume "validate limit a = Inl NoAcceptingStatesException"
      with validate_NoAcceptingStates extract_file_accepting [OF Inr] show False by blast
    next
      assume "construct a = Inl NoAcceptingStatesException"
      from construct_error [OF this] show False by simp
    qed
  qed
qed

text \<open>
  Claim C8: for every input whose set of accepting states is empty the program raises
  \<open>NoAcceptingStatesException\<close>, and no other error, and does not reach the construction.

  \<open>__validate\<close> raises this exception when it is given an empty list. It is never given
  one: the bracket group of the line \<open>accepting=[]\<close> is empty, the pattern of
  \<open>__extract\<close> asks for at least one character between the brackets, and the missing value
  is reported as a malformed input file. No input at all makes the program raise
  \<open>NoAcceptingStatesException\<close>.
\<close>

theorem empty_accepting_list_is_reported_as_malformed:
  "convert limit no_accepting_file = Inl InputIsMalformedException \<and>
   main limit no_accepting_file = \<lparr> stdout = [''E1: Input file is malformed''], exit_status = 0 \<rparr> \<and>
   validate limit (initial_second\<lparr> accepting_states := [] \<rparr>) = Inl NoAcceptingStatesException \<and>
   (\<forall>file. convert limit file \<noteq> Inl NoAcceptingStatesException)"
proof -
  have 1: "convert limit no_accepting_file = Inl InputIsMalformedException" by code_simp
  have 2: "main limit no_accepting_file = \<lparr> stdout = [''E1: Input file is malformed''], exit_status = 0 \<rparr>"
    by code_simp
  have 3: "validate limit (initial_second\<lparr> accepting_states := [] \<rparr>) = Inl NoAcceptingStatesException"
    by code_simp
  from 1 2 3 convert_never_NoAcceptingStates show ?thesis by (simp only: simp_thms)
qed

subsection \<open>The row the answer is read from\<close>

lemma collect_answer_upto:
  assumes m: "square (length (states a)) m"
  shows "k \<le> length (states a) \<Longrightarrow>
    for_each [0..<k]
       (\<lambda>i (answer, path).
          and_then (get (states a) i) (\<lambda>state.
            if state \<in> set (accepting_states a)
            then and_then (cell_at m 0 i) (\<lambda>c. Inr (answer @ ''('' @ fmt c @ '')|'', path + 1))
            else Inr (answer, path)))
       ([], 0)
    = Inr (concat (map (\<lambda>i. (''('' @ fmt (m ! 0 ! i) @ '')'') @ ''|'')
                    (filter (\<lambda>i. states a ! i \<in> set (accepting_states a)) [0..<k])),
           length (filter (\<lambda>i. states a ! i \<in> set (accepting_states a)) [0..<k]))"
proof (induction k)
  case 0
  show ?case by simp
next
  case (Suc k)
  then have k: "k < length (states a)" by simp
  with m have 0: "0 < length m" by (auto simp: square_def)
  then have "m ! 0 \<in> set m" by (rule nth_mem)
  with m k 0 have c: "cell_at m 0 k = Inr (m ! 0 ! k)"
    by (intro cell_at_in_range) (simp_all add: square_def)
  from Suc k show ?case
    by (simp add: for_each_append get_in_range c)
qed

lemma valid_accepting_index:
  assumes "validate limit a = Inr ()"
  shows "filter (\<lambda>i. states a ! i \<in> set (accepting_states a)) [0..<length (states a)] \<noteq> []"
proof -
  from validate_Inr(4) [OF assms] obtain s where s: "s \<in> set (accepting_states a)"
    by (cases "accepting_states a") auto
  from validate_Inr(5) [OF assms] have "check4 a = None"
    by (simp add: check_accepting_check4 split: option.splits)
  then have "\<forall>state \<in> set (accepting_states a). state \<in> set (states a)"
    by (auto simp: check4_def find_None_iff split: option.splits)
  with s have "s \<in> set (states a)" by simp
  then obtain i where "i < length (states a)" "states a ! i = s"
    by (auto simp: in_set_conv_nth)
  with s show ?thesis
    by (auto simp: filter_empty_conv)
qed

lemma convert_reads_row_zero:
  assumes v: "validate limit a = Inr ()"
  shows "\<exists>m. final_matrix a = Inr m \<and> convert_automaton limit a = Inr (row_alternation a m 0)"
proof -
  let ?n = "length (states a)"
  let ?L = "filter (\<lambda>i. states a ! i \<in> set (accepting_states a)) [0..<?n]"
  from v have tf: "three_fields a"
    by (intro check_transitions_three_fields validate_Inr)
  from matrix_after_square [OF tf, of ?n]
  obtain m where m: "final_matrix a = Inr m" "square ?n m"
    by (auto simp: matrix_after_final)
  let ?pieces = "map (\<lambda>i. ''('' @ fmt (m ! 0 ! i) @ '')'') ?L"
  have ne: "?pieces \<noteq> []" using valid_accepting_index [OF v] by simp
  have "concat (map (\<lambda>i. (''('' @ fmt (m ! 0 ! i) @ '')'') @ ''|'') ?L)
        = concat (map (\<lambda>x. x @ ''|'') ?pieces)"
    by (simp add: comp_def)
  also have "\<dots> = join ''|'' ?pieces @ ''|''" using ne by (rule join_sep)
  finally have ans: "concat (map (\<lambda>i. (''('' @ fmt (m ! 0 ! i) @ '')'') @ ''|'') ?L)
        = row_alternation a m 0 @ ''|''"
    by (simp add: row_alternation_def)
  have "collect_answer a m = Inr (row_alternation a m 0 @ ''|'', length ?L)"
    unfolding collect_answer_def collect_answer_upto [OF m(2) le_refl] ans ..
  moreover have "length ?L \<noteq> 0" using valid_accepting_index [OF v] by simp
  ultimately have "construct a = Inr (row_alternation a m 0)"
    by (simp add: construct_def m(1) butlast_append)
  with v m(1) show ?thesis by (simp add: convert_automaton_def)
qed

text \<open>
  Claim C1: for every valid automaton the regular expression returned by \<open>convert\<close> is
  the alternation, over the indices of the accepting states, of the entries of the final
  matrix in the row of the initial state, that is the row at the position of the initial
  state in the sorted list of states.

  The program reads row \<open>0\<close> whatever the initial state is: for every valid automaton
  the answer is the alternation of row \<open>0\<close> (\<open>convert_reads_row_zero\<close>). For the valid
  automaton with the
  states \<open>q0\<close> and \<open>q1\<close>, the initial and accepting state \<open>q1\<close> and the single transition
  from \<open>q1\<close> to \<open>q0\<close> on \<open>a\<close>, the initial state has position \<open>1\<close>; the answer is the
  alternation of row \<open>0\<close>, differs from the alternation of row \<open>1\<close>, and denotes the empty
  language, whereas the alternation of row \<open>1\<close> denotes the language of the automaton,
  which consists of the empty word. The traversal of the two states nests two calls, so
  this is the run under every limit \<open>Suc (Suc d)\<close>.
\<close>

theorem answer_is_read_from_row_zero:
  "extract_file initial_second_file = Inr initial_second \<and>
   validate (Suc (Suc d)) initial_second = Inr () \<and>
   initial_index initial_second = 1 \<and>
   convert (Suc (Suc d)) initial_second_file =
     and_then (final_matrix initial_second) (\<lambda>m. Inr (row_alternation initial_second m 0)) \<and>
   convert (Suc (Suc d)) initial_second_file \<noteq>
     and_then (final_matrix initial_second)
       (\<lambda>m. Inr (row_alternation initial_second m (initial_index initial_second))) \<and>
   convert (Suc (Suc d)) initial_second_file =
     Inr ''(((eps)(eps)*({})|({}))((a)(eps)*({})|(eps))*((a)(eps)*({})|(eps))|((eps)(eps)*({})|({})))'' \<and>
   denotes ''(((eps)(eps)*({})|({}))((a)(eps)*({})|(eps))*((a)(eps)*({})|(eps))|((eps)(eps)*({})|({})))'' {} \<and>
   and_then (final_matrix initial_second)
       (\<lambda>m. Inr (row_alternation initial_second m (initial_index initial_second))) =
     Inr ''(((a)(eps)*({})|(eps))((a)(eps)*({})|(eps))*((a)(eps)*({})|(eps))|((a)(eps)*({})|(eps)))'' \<and>
   denotes ''(((a)(eps)*({})|(eps))((a)(eps)*({})|(eps))*((a)(eps)*({})|(eps))|((a)(eps)*({})|(eps)))'' {[]}"
proof -
  have 1: "extract_file initial_second_file = Inr initial_second" by code_simp
  have 2: "validate (Suc (Suc d)) initial_second = Inr ()" by code_simp
  have 3: "initial_index initial_second = 1" by code_simp
  have 4: "convert (Suc (Suc d)) initial_second_file =
     Inr ''(((eps)(eps)*({})|({}))((a)(eps)*({})|(eps))*((a)(eps)*({})|(eps))|((eps)(eps)*({})|({})))''"
    by code_simp
  have 5: "and_then (final_matrix initial_second) (\<lambda>m. Inr (row_alternation initial_second m 0)) =
     Inr ''(((eps)(eps)*({})|({}))((a)(eps)*({})|(eps))*((a)(eps)*({})|(eps))|((eps)(eps)*({})|({})))''"
    by code_simp
  have 6: "and_then (final_matrix initial_second)
       (\<lambda>m. Inr (row_alternation initial_second m (initial_index initial_second))) =
     Inr ''(((a)(eps)*({})|(eps))((a)(eps)*({})|(eps))*((a)(eps)*({})|(eps))|((a)(eps)*({})|(eps)))''"
    by code_simp
  have p0: "parse_regex ''(((eps)(eps)*({})|({}))((a)(eps)*({})|(eps))*((a)(eps)*({})|(eps))|((eps)(eps)*({})|({})))'' =
    Some (Alt (Cat (Cat (Alt (Cat (Cat EmptyWord (Star EmptyWord)) EmptySet) EmptySet)
              (Star (Alt (Cat (Cat (Sym ''a'') (Star EmptyWord)) EmptySet) EmptyWord)))
         (Alt (Cat (Cat (Sym ''a'') (Star EmptyWord)) EmptySet) EmptyWord))
    (Alt (Cat (Cat EmptyWord (Star EmptyWord)) EmptySet) EmptySet))"
    by code_simp
  have 7: "denotes ''(((eps)(eps)*({})|({}))((a)(eps)*({})|(eps))*((a)(eps)*({})|(eps))|((eps)(eps)*({})|({})))'' {}"
    unfolding denotes_def p0 by (simp add: conc_empty_left conc_empty_right)
  have p1: "parse_regex ''(((a)(eps)*({})|(eps))((a)(eps)*({})|(eps))*((a)(eps)*({})|(eps))|((a)(eps)*({})|(eps)))'' =
    Some (Alt (Cat (Cat (Alt (Cat (Cat (Sym ''a'') (Star EmptyWord)) EmptySet) EmptyWord)
              (Star (Alt (Cat (Cat (Sym ''a'') (Star EmptyWord)) EmptySet) EmptyWord)))
         (Alt (Cat (Cat (Sym ''a'') (Star EmptyWord)) EmptySet) EmptyWord))
    (Alt (Cat (Cat (Sym ''a'') (Star EmptyWord)) EmptySet) EmptyWord))"
    by code_simp
  have 8: "denotes ''(((a)(eps)*({})|(eps))((a)(eps)*({})|(eps))*((a)(eps)*({})|(eps))|((a)(eps)*({})|(eps)))'' {[]}"
    unfolding denotes_def p1
    by (simp add: conc_empty_left conc_empty_right conc_eps_left conc_eps_right star_eps)
  have 9: "convert (Suc (Suc d)) initial_second_file \<noteq>
     and_then (final_matrix initial_second)
       (\<lambda>m. Inr (row_alternation initial_second m (initial_index initial_second)))"
    unfolding 4 6 by simp
  from 1 2 3 4 5 6 7 8 9 show ?thesis by (simp only: simp_thms)
qed

subsection \<open>What the process prints and how it ends\<close>

lemma check_transition_ConverterException:
  assumes "length (split CHR ''>'' t) = 3" and "check_transition a t = Inl e"
  shows "is_ConverterException e"
proof -
  from assms(1) obtain s x d where "unpack t = Inr (s, x, d)" by (rule unpack_three_fields)
  with assms(2) show ?thesis
    by (auto simp: check_transition_def split: if_splits)
qed

lemma validate_error_is_ConverterException:
  assumes tf: "three_fields a" and v: "validate limit a = Inl e" and r: "e \<noteq> RecursionError"
  shows "is_ConverterException e"
proof -
  from v have "Some e \<in> set [check1 a, check2 a, check3 a, check4 a, check5 a, check6 limit a, check7 a]"
    by (intro first_failure_error) (simp add: validate_first_failure validate_in_order_def)
  then consider "check1 a = Some e" | "check2 a = Some e" | "check3 a = Some e"
    | "check4 a = Some e" | "check5 a = Some e" | "check6 limit a = Some e" | "check7 a = Some e"
    by auto
  then show ?thesis
  proof cases
    case 1 then show ?thesis by (auto simp: check1_def split: if_splits)
  next
    case 2 then show ?thesis by (auto simp: check2_def split: if_splits)
  next
    case 3 then show ?thesis by (auto simp: check3_def split: if_splits)
  next
    case 4 then show ?thesis by (auto simp: check4_def split: option.splits)
  next
    case 5
    then obtain t where t: "find (\<lambda>t. check_transition a t \<noteq> Inr ()) (transitions a) = Some t"
      and e: "check_transition a t = Inl e"
      by (auto simp: check5_def split: option.splits sum.splits)
    from t have "t \<in> set (transitions a)" by (auto simp: find_Some_iff)
    with tf have "length (split CHR ''>'' t) = 3" by (simp add: three_fields_def)
    then show ?thesis using e by (rule check_transition_ConverterException)
  next
    case 6
    from build_graph_invariant [OF tf] obtain g i where "build_graph a = Inr (g, i)" by blast
    with 6 r show ?thesis
      by (auto simp: check6_def split: option.splits if_splits)
  next
    case 7 then show ?thesis by (auto simp: check7_def split: if_splits)
  qed
qed

text \<open>
  \<^verbatim>\<open>RecursionError\<close> leaves the validation from the traversal only, after the checks 1
  to 5 have passed, and not when the limit leaves room for as many nested calls as there
  are declared states.
\<close>

lemma check_transition_not_RecursionError: "check_transition a t \<noteq> Inl RecursionError"
  by (auto simp: check_transition_def and_then_eq_Inl dest: unpack_error split: if_splits)

lemma checks_not_RecursionError:
  "check1 a \<noteq> Some RecursionError" "check2 a \<noteq> Some RecursionError"
  "check3 a \<noteq> Some RecursionError" "check4 a \<noteq> Some RecursionError"
  "check5 a \<noteq> Some RecursionError"
  using check_transition_not_RecursionError [of a]
  by (auto simp: check1_def check2_def check3_def check4_def check5_def
      split: option.splits sum.splits)

lemma validate_RecursionError:
  assumes "validate limit a = Inl RecursionError"
  shows "check2 a = None \<and> check5 a = None \<and> check6 limit a = Some RecursionError"
proof -
  from assms have f: "first_failure
      [check1 a, check2 a, check3 a, check4 a, check5 a, check6 limit a, check7 a]
      = Inl RecursionError"
    by (simp add: validate_first_failure validate_in_order_def)
  have 1: "check1 a = None"
    using f checks_not_RecursionError(1) [of a] by (cases "check1 a") auto
  have 2: "check2 a = None"
    using f 1 checks_not_RecursionError(2) [of a] by (cases "check2 a") auto
  have 3: "check3 a = None"
    using f 1 2 checks_not_RecursionError(3) [of a] by (cases "check3 a") auto
  have 4: "check4 a = None"
    using f 1 2 3 checks_not_RecursionError(4) [of a] by (cases "check4 a") auto
  have 5: "check5 a = None"
    using f 1 2 3 4 checks_not_RecursionError(5) [of a] by (cases "check5 a") auto
  have 6: "check6 limit a = Some RecursionError"
    using f 1 2 3 4 5 by (cases "check6 limit a") (auto simp: check7_def split: if_splits)
  from 2 5 6 show ?thesis by simp
qed

lemma validate_within_limit:
  assumes "length (states a) \<le> limit"
  shows "validate limit a \<noteq> Inl RecursionError"
proof
  assume "validate limit a = Inl RecursionError"
  from validate_RecursionError [OF this]
  have c: "check2 a = None" "check5 a = None" "check6 limit a = Some RecursionError"
    by simp_all
  from build_graph_invariant [OF check5_three_fields [OF c(2)]]
  obtain g i where g: "build_graph a = Inr (g, i)" by blast
  from traversal_returns [OF c(1,2) g assms] c(3) g show False
    by (auto simp: check6_def split: if_splits)
qed

text \<open>
  A traversal that nests more calls than the limit leaves room for: the two states of the
  automaton below need two nested calls, and under the limit \<open>1\<close> the run ends with the
  uncaught \<^verbatim>\<open>RecursionError\<close>, nothing on standard output and the exit status 1.
\<close>

lemma traversal_deeper_than_limit:
  "validate 1 initial_second = Inl RecursionError \<and>
   convert 1 initial_second_file = Inl RecursionError \<and>
   main 1 initial_second_file = \<lparr> stdout = [], exit_status = 1 \<rparr>"
proof -
  have 1: "validate 1 initial_second = Inl RecursionError" by code_simp
  have 2: "convert 1 initial_second_file = Inl RecursionError" by code_simp
  have 3: "main 1 initial_second_file = \<lparr> stdout = [], exit_status = 1 \<rparr>" by code_simp
  from 1 2 3 show ?thesis by (simp only: simp_thms)
qed

text \<open>
  A run that does not end with \<^verbatim>\<open>RecursionError\<close> is the same under every greater
  limit.
\<close>

lemma check6_more_depth:
  assumes "check6 limit a \<noteq> Some RecursionError"
  shows "check6 (limit + d) a = check6 limit a"
proof (cases "build_graph a")
  case (Inl e)
  then show ?thesis by (simp add: check6_def)
next
  case (Inr gi)
  obtain g i where gi: "gi = (g, i)" by (cases gi)
  with Inr assms obtain nn where nn: "reached_nodes limit g i = Some nn"
    by (cases "reached_nodes limit g i") (auto simp: check6_def)
  from reached_nodes_more_depth [OF nn, of d] nn Inr gi show ?thesis
    by (simp add: check6_def)
qed

lemma validate_more_depth:
  assumes "validate limit a \<noteq> Inl RecursionError"
  shows "validate (limit + d) a = validate limit a"
proof (cases "check6 limit a = Some RecursionError")
  case False
  then show ?thesis
    by (simp add: validate_first_failure validate_in_order_def check6_more_depth)
next
  case True
  with assms show ?thesis
    by (cases "check1 a"; cases "check2 a"; cases "check3 a"; cases "check4 a"; cases "check5 a")
       (simp_all add: validate_first_failure validate_in_order_def)
qed

lemma convert_more_depth:
  assumes "convert limit file \<noteq> Inl RecursionError"
  shows "convert (limit + d) file = convert limit file"
proof (cases "extract_file file")
  case (Inl e)
  then show ?thesis by (simp add: convert_def)
next
  case (Inr a)
  with assms have "validate limit a \<noteq> Inl RecursionError"
    by (auto simp: convert_def convert_automaton_def)
  from validate_more_depth [OF this, of d] Inr show ?thesis
    by (simp add: convert_def convert_automaton_def)
qed

text \<open>
  Claim C9, as stated: on every validation or parse failure exactly one diagnostic line is
  printed, no regular expression is emitted, and the process ends with a non-success exit
  status; on success the regular expression is printed and the process exits normally.

  The exit status is not as stated: the declared state \<open>q2\<close> of the input below occurs in
  no transition, the program prints the diagnostic of \<open>DisjointStatesException\<close> and ends
  with \<open>exit()\<close>, whose exit status is \<open>0\<close>, the status of a successful run.
\<close>

theorem failure_exits_with_status_zero:
  "convert 1000 unreferenced_state_file = Inl DisjointStatesException \<and>
   stdout (main 1000 unreferenced_state_file) = [''E6: Some states are disjoint''] \<and>
   exit_status (main 1000 unreferenced_state_file) = 0"
proof -
  have 1: "convert 1000 unreferenced_state_file = Inl DisjointStatesException" by code_simp
  have 2: "main 1000 unreferenced_state_file = \<lparr> stdout = [''E6: Some states are disjoint''], exit_status = 0 \<rparr>"
    by code_simp
  show ?thesis unfolding 1 2 by simp
qed

text \<open>
  Claim C9, amended: on every failure that is signalled by a \<open>ConverterException\<close>, exactly
  one diagnostic line with the message of the exception is printed, no regular expression
  is emitted, and the process ends with exit status \<open>0\<close>; on success, that is whenever
  validation passes, the regular expression is the one line printed and the exit status is
  \<open>0\<close> as well. The failures signalled by a \<open>ConverterException\<close> are every failure of the
  extraction and every failure of the validation but two: the \<^verbatim>\<open>ValueError\<close> of a
  transition token that has not three fields, and the \<^verbatim>\<open>RecursionError\<close> of a traversal
  that nests more calls than the recursion limit of the interpreter leaves room for, which
  does not occur when the limit leaves room for as many calls as there are declared states.
\<close>

theorem main_prints_one_line_and_exits_with_zero:
  "(\<forall>e. convert limit file = Inl e \<and> is_ConverterException e \<longrightarrow>
        main limit file = \<lparr> stdout = [message e], exit_status = 0 \<rparr>) \<and>
   (\<forall>answer. convert limit file = Inr answer \<longrightarrow>
        main limit file = \<lparr> stdout = [answer], exit_status = 0 \<rparr>) \<and>
   (\<forall>e. extract_file file = Inl e \<longrightarrow>
        main limit file = \<lparr> stdout = [''E1: Input file is malformed''], exit_status = 0 \<rparr>) \<and>
   (\<forall>a e. extract_file file = Inr a \<and> three_fields a \<and> validate limit a = Inl e
           \<and> e \<noteq> RecursionError \<longrightarrow>
        is_ConverterException e \<and>
        main limit file = \<lparr> stdout = [message e], exit_status = 0 \<rparr>) \<and>
   (\<forall>a. extract_file file = Inr a \<and> length (states a) \<le> limit \<longrightarrow>
        validate limit a \<noteq> Inl RecursionError) \<and>
   (\<forall>a. extract_file file = Inr a \<and> validate limit a = Inr () \<longrightarrow>
        (\<exists>answer. convert limit file = Inr answer \<and>
                  main limit file = \<lparr> stdout = [answer], exit_status = 0 \<rparr>))"
proof (intro conjI allI impI)
  fix e assume "convert limit file = Inl e \<and> is_ConverterException e"
  then show "main limit file = \<lparr> stdout = [message e], exit_status = 0 \<rparr>"
    by (simp add: main_def)
next
  fix answer assume "convert limit file = Inr answer"
  then show "main limit file = \<lparr> stdout = [answer], exit_status = 0 \<rparr>"
    by (simp add: main_def)
next
  fix e assume e: "extract_file file = Inl e"
  then have "convert limit file = Inl InputIsMalformedException"
    using extract_file_error [OF e] by (simp add: convert_def and_then_def)
  then show "main limit file = \<lparr> stdout = [''E1: Input file is malformed''], exit_status = 0 \<rparr>"
    by (simp add: main_def)
next
  fix a e assume h: "extract_file file = Inr a \<and> three_fields a \<and> validate limit a = Inl e
                     \<and> e \<noteq> RecursionError"
  then show c: "is_ConverterException e"
    by (auto intro: validate_error_is_ConverterException)
  from h have "convert limit file = Inl e"
    by (simp add: convert_def convert_automaton_def)
  with c show "main limit file = \<lparr> stdout = [message e], exit_status = 0 \<rparr>"
    by (simp add: main_def)
next
  fix a assume "extract_file file = Inr a \<and> length (states a) \<le> limit"
  then show "validate limit a \<noteq> Inl RecursionError"
    by (simp add: validate_within_limit)
next
  fix a assume h: "extract_file file = Inr a \<and> validate limit a = Inr ()"
  then obtain m where "convert_automaton limit a = Inr (row_alternation a m 0)"
    using convert_reads_row_zero [of limit a] by blast
  with h have "convert limit file = Inr (row_alternation a m 0)"
    by (simp add: convert_def)
  then show "\<exists>answer. convert limit file = Inr answer \<and>
                  main limit file = \<lparr> stdout = [answer], exit_status = 0 \<rparr>"
    by (simp add: main_def)
qed

theorem main_prints_one_line_and_exits_with_zero_witness:
  "convert 1000 unreferenced_state_file = Inl DisjointStatesException \<and>
   is_ConverterException DisjointStatesException \<and>
   extract_file unreferenced_state_file = Inr unreferenced_state \<and>
   three_fields unreferenced_state \<and>
   length (states unreferenced_state) \<le> 1000 \<and>
   validate 1000 unreferenced_state = Inl DisjointStatesException \<and>
   DisjointStatesException \<noteq> RecursionError \<and>
   main 1000 unreferenced_state_file = \<lparr> stdout = [''E6: Some states are disjoint''], exit_status = 0 \<rparr> \<and>
   extract_file initial_second_file = Inr initial_second \<and>
   validate 1000 initial_second = Inr () \<and>
   convert 1000 trivial_file = Inr ''((a|eps)(a|eps)*(a|eps)|(a|eps))'' \<and>
   main 1000 trivial_file = \<lparr> stdout = [''((a|eps)(a|eps)*(a|eps)|(a|eps))''], exit_status = 0 \<rparr> \<and>
   extract_file no_accepting_file = Inl InputIsMalformedException \<and>
   main 1000 no_accepting_file = \<lparr> stdout = [''E1: Input file is malformed''], exit_status = 0 \<rparr> \<and>
   (\<exists>answer. convert 1000 initial_second_file = Inr answer \<and>
       main 1000 initial_second_file = \<lparr> stdout = [answer], exit_status = 0 \<rparr>)"
proof -
  have 1: "convert 1000 unreferenced_state_file = Inl DisjointStatesException" by code_simp
  have 2: "convert 1000 trivial_file = Inr ''((a|eps)(a|eps)*(a|eps)|(a|eps))''" by code_simp
  have 3: "extract_file no_accepting_file = Inl InputIsMalformedException" by code_simp
  have 4: "extract_file unreferenced_state_file = Inr unreferenced_state" by code_simp
  have 5: "three_fields unreferenced_state"
    by (simp add: three_fields_def unreferenced_state_def)
  have 6: "validate 1000 unreferenced_state = Inl DisjointStatesException" by code_simp
  have 7: "extract_file initial_second_file = Inr initial_second" by code_simp
  have 8: "validate 1000 initial_second = Inr ()" by code_simp
  have 9: "length (states unreferenced_state) \<le> 1000" by (simp add: unreferenced_state_def)
  note th = main_prints_one_line_and_exits_with_zero
  from th [of 1000 unreferenced_state_file] 4 5 6
  have a: "main 1000 unreferenced_state_file = \<lparr> stdout = [''E6: Some states are disjoint''], exit_status = 0 \<rparr>"
    by simp
  from th [of 1000 trivial_file] 2
  have b: "main 1000 trivial_file = \<lparr> stdout = [''((a|eps)(a|eps)*(a|eps)|(a|eps))''], exit_status = 0 \<rparr>"
    by simp
  from th [of 1000 no_accepting_file] 3
  have c: "main 1000 no_accepting_file = \<lparr> stdout = [''E1: Input file is malformed''], exit_status = 0 \<rparr>"
    by simp
  from th [of 1000 initial_second_file] 7 8
  have d: "\<exists>answer. convert 1000 initial_second_file = Inr answer \<and>
       main 1000 initial_second_file = \<lparr> stdout = [answer], exit_status = 0 \<rparr>"
    by (elim conjE allE [of _ initial_second]) simp
  from 1 2 3 4 5 6 7 8 9 a b c d show ?thesis
    by (simp only: simp_thms is_ConverterException.simps error.distinct)
qed

end
